theory Spec2Isabelle
  imports Main
begin

section \<open>Result containers\<close>

text \<open>
  The value types of \<^verbatim>\<open>highlight.cpp\<close>. \<^verbatim>\<open>size_t\<close> values are natural numbers and
  \<^verbatim>\<open>int32_t\<close> values are integers; no quantity of the highlighting core comes near the
  word bounds. Field names that several structs share carry a prefix
  (\<^verbatim>\<open>MatchResult::start\<close> is \<open>m_start\<close>, \<^verbatim>\<open>CaptureGroupMatch::start\<close> is \<open>g_start\<close>).
\<close>

record TextPosition =
  line :: nat
  column :: nat
  index :: nat

record TextRange =
  range_start :: TextPosition
  range_end :: TextPosition

record TokenSpan =
  span_range :: TextRange
  style_id :: int
  state :: int
  goto_state :: int
  matched_text :: string
  inline_style :: "string option"

record LineHighlight =
  spans :: "TokenSpan list"

record DocumentHighlight =
  lines :: "LineHighlight list"

text \<open>
  Modelled from the spec: the member initialisers of \<^verbatim>\<open>TokenSpan\<close> stand in
  \<^verbatim>\<open>internal_highlight.h\<close>, which is not part of the sources at hand. The data model gives
  \<open>-1\<close> as the sentinel of \<open>goto_state\<close>; every other field is written by the code before
  a span is emitted (\<open>matched_text\<close> and \<open>inline_style\<close> stay unset when the code leaves
  them out).
\<close>

definition TextPosition_default :: TextPosition where
  "TextPosition_default = \<lparr>line = 0, column = 0, index = 0\<rparr>"

definition TokenSpan_default :: TokenSpan where
  "TokenSpan_default =
     \<lparr>span_range = \<lparr>range_start = TextPosition_default, range_end = TextPosition_default\<rparr>,
      style_id = 0, state = - 1, goto_state = - 1, matched_text = [], inline_style = None\<rparr>"

definition LineHighlight_empty :: LineHighlight where
  "LineHighlight_empty = \<lparr>spans = []\<rparr>"

subsection \<open>Equality operators\<close>

text \<open>
  \<^verbatim>\<open>TokenSpan::operator==\<close> compares range, style, state and goto state, and neither the
  matched text nor the inline style. \<^verbatim>\<open>LineHighlight::operator==\<close> compares the sizes and
  then the spans pairwise. Modelled from the spec: \<^verbatim>\<open>TextRange::operator==\<close> is not part of
  the sources at hand; two ranges are equal when their positions agree in line, column
  and index.
\<close>

definition TokenSpan_eq :: "TokenSpan \<Rightarrow> TokenSpan \<Rightarrow> bool" where
  "TokenSpan_eq a b \<longleftrightarrow>
     span_range a = span_range b \<and> style_id a = style_id b \<and> state a = state b
     \<and> goto_state a = goto_state b"

definition LineHighlight_eq :: "LineHighlight \<Rightarrow> LineHighlight \<Rightarrow> bool" where
  "LineHighlight_eq a b \<longleftrightarrow>
     length (spans a) = length (spans b) \<and> list_all2 TokenSpan_eq (spans a) (spans b)"

subsection \<open>Span merging\<close>

definition end_column :: "TokenSpan \<Rightarrow> nat" where
  "end_column s = column (range_end (span_range s))"

definition start_column :: "TokenSpan \<Rightarrow> nat" where
  "start_column s = column (range_start (span_range s))"

definition end_index :: "TokenSpan \<Rightarrow> nat" where
  "end_index s = index (range_end (span_range s))"

definition start_index :: "TokenSpan \<Rightarrow> nat" where
  "start_index s = index (range_start (span_range s))"

text \<open>The two assignments of the merge branch: the end column and the end index of
  \<open>last\<close> are overwritten with those of the incoming span.\<close>

definition extend_end :: "TokenSpan \<Rightarrow> TokenSpan \<Rightarrow> TokenSpan" where
  "extend_end lst span =
     lst\<lparr>span_range := (span_range lst)\<lparr>range_end := (range_end (span_range lst))
        \<lparr>column := end_column span, index := end_index span\<rparr>\<rparr>\<rparr>"

definition pushOrMergeSpan :: "LineHighlight \<Rightarrow> TokenSpan \<Rightarrow> LineHighlight" where
  "pushOrMergeSpan h span =
     (if spans h = [] then h\<lparr>spans := spans h @ [span]\<rparr>
      else
        let lst = last (spans h) in
        if end_column lst = start_column span \<and> style_id lst = style_id span
        then h\<lparr>spans := butlast (spans h) @ [extend_end lst span]\<rparr>
        else h\<lparr>spans := spans h @ [span]\<rparr>)"

section \<open>UTF-8 index\<close>

text \<open>
  Modelled from the spec: \<^verbatim>\<open>Utf8Util\<close> (\<^verbatim>\<open>util.h\<close>) is not part of the sources at hand. The
  spec lists its four operations; they are modelled on a byte string, where a character
  starts at every byte that is not a continuation byte (top bits \<open>10\<close>).
\<close>

definition is_continuation :: "char \<Rightarrow> bool" where
  "is_continuation c = (case c of Char b0 b1 b2 b3 b4 b5 b6 b7 \<Rightarrow> b7 \<and> \<not> b6)"

definition countChars :: "string \<Rightarrow> nat" where
  "countChars t = length (filter (\<lambda>c. \<not> is_continuation c) t)"

definition bytePosToCharPos :: "string \<Rightarrow> nat \<Rightarrow> nat" where
  "bytePosToCharPos t b = countChars (take b t)"

fun charPosToBytePos :: "string \<Rightarrow> nat \<Rightarrow> nat" where
  "charPosToBytePos [] n = 0"
| "charPosToBytePos (c # cs) n =
     (if is_continuation c then Suc (charPosToBytePos cs n)
      else (case n of 0 \<Rightarrow> 0 | Suc m \<Rightarrow> Suc (charPosToBytePos cs m)))"

definition utf8Substr :: "string \<Rightarrow> nat \<Rightarrow> nat \<Rightarrow> string" where
  "utf8Substr t s l =
     take (charPosToBytePos t (s + l) - charPosToBytePos t s) (drop (charPosToBytePos t s) t)"

section \<open>Regex search\<close>

text \<open>
  The regex engine is an external library. A region gives, for every capture group, the
  byte offsets where the group begins and ends (\<open>-1\<close> for a group that took no part).
  A compiled regex is the search it performs: from a text and a start offset to the
  region of the first match at or after that offset, or nothing. The type holds what
  the engine promises of a successful forward search over UTF-8 text: group 0 begins at
  or after the start offset and at the first byte of a character, it ends within the
  text, and no group ends before it begins.
\<close>

record OnigRegion =
  region_beg :: "nat \<Rightarrow> int"
  region_end :: "nat \<Rightarrow> int"

definition region_ok :: "string \<Rightarrow> nat \<Rightarrow> OnigRegion \<Rightarrow> bool" where
  "region_ok t s r \<longleftrightarrow>
     int s \<le> region_beg r 0 \<and> region_end r 0 \<le> int (length t)
     \<and> (\<forall>g. region_beg r g \<le> region_end r g)
     \<and> (nat (region_beg r 0) < length t \<longrightarrow> \<not> is_continuation (t ! nat (region_beg r 0)))"

typedef regex =
  "{f :: string \<Rightarrow> nat \<Rightarrow> OnigRegion option. \<forall>t s r. f t s = Some r \<longrightarrow> region_ok t s r}"
  by (rule exI [of _ "\<lambda>t s. None"]) simp

setup_lifting type_definition_regex

definition onig_search :: "regex \<Rightarrow> string \<Rightarrow> nat \<Rightarrow> OnigRegion option" where
  "onig_search rx t s = Rep_regex rx t s"

lemma onig_search_ok: "onig_search rx t s = Some r \<Longrightarrow> region_ok t s r"
  using Rep_regex [of rx] by (auto simp: onig_search_def)

lemma onig_search_forward:
  "onig_search rx t s = Some r \<Longrightarrow> int s \<le> region_beg r 0"
  by (drule onig_search_ok) (simp add: region_ok_def)

lemma onig_search_ordered:
  "onig_search rx t s = Some r \<Longrightarrow> region_beg r g \<le> region_end r g"
  by (drule onig_search_ok) (simp add: region_ok_def)

lemma onig_search_within:
  "onig_search rx t s = Some r \<Longrightarrow> region_end r 0 \<le> int (length t)"
  by (drule onig_search_ok) (simp add: region_ok_def)

lemma onig_search_boundary:
  "onig_search rx t s = Some r \<Longrightarrow> nat (region_beg r 0) < length t
   \<Longrightarrow> \<not> is_continuation (t ! nat (region_beg r 0))"
  by (drule onig_search_ok) (simp add: region_ok_def)

section \<open>Grammar model\<close>

text \<open>
  A token rule owns the capture groups from \<open>group_offset_start\<close> on, carries the style of
  each of its groups (the method \<^verbatim>\<open>getGroupStyleId\<close>, kept as a function), the state to go
  to, and optionally a sub-grammar. A state rule is the combined regex with its token
  rules in declared order.
\<close>

datatype 's TokenRule =
  TokenRule (group_offset_start: nat) (group_count: nat) (getGroupStyleId: "nat \<Rightarrow> int")
    (rule_goto_state: int) (sub_state_rule: "'s option")

datatype StateRule =
  StateRule (regex: regex) (token_rules: "StateRule TokenRule list") (line_end_state: int)

text \<open>
  Modelled from the spec: the class \<^verbatim>\<open>SyntaxRule\<close> is not part of the sources at hand. The
  spec gives its states as a map from state ids to state rules, and the lookup of an
  inline style. The field \<open>absent_rule\<close> is no part of the grammar: it is the parameter that
  stands for what \<^verbatim>\<open>getStateRule\<close> hands back for a state that the map lacks (see there).
\<close>

record SyntaxRule =
  states :: "int \<Rightarrow> StateRule option"
  absent_rule :: "int \<Rightarrow> StateRule"
  getInlineStyle :: "int \<Rightarrow> string option"

definition kDefaultStateId :: int where
  "kDefaultStateId = 0"

text \<open>
  Modelled from the spec: \<^verbatim>\<open>SyntaxRule::containsRule\<close> and \<^verbatim>\<open>SyntaxRule::getStateRule\<close> are not
  part of the sources at hand. The first is membership in the map of the states, the second
  hands back the rule that the map has for a state. For a state that the map lacks the
  spec names no result of \<^verbatim>\<open>getStateRule\<close>. The source makes that call in one place only,
  behind the scan loop of \<^verbatim>\<open>analyzeLine\<close>, where no \<^verbatim>\<open>containsRule\<close> test stands before it.
  What the call hands back there is taken as the parameter \<open>absent_rule\<close>, about which nothing
  is supposed. That the call returns at all is a premise of this model and no finding: a
  lookup that throws, or that puts an entry into the map, is not described by it.
\<close>

definition containsRule :: "SyntaxRule \<Rightarrow> int \<Rightarrow> bool" where
  "containsRule rule s \<longleftrightarrow> states rule s \<noteq> None"

definition getStateRule :: "SyntaxRule \<Rightarrow> int \<Rightarrow> StateRule" where
  "getStateRule rule s = (case states rule s of Some r \<Rightarrow> r | None \<Rightarrow> absent_rule rule s)"

record HighlightConfig =
  show_index :: bool
  cfg_inline_style :: bool

section \<open>Line tokenizer\<close>

subsection \<open>Match results\<close>

record CaptureGroupMatch =
  g_group :: nat
  g_style :: int
  g_start :: nat
  g_length :: nat

record MatchResult =
  matched :: bool
  m_start :: nat
  m_length :: nat
  m_state :: int
  token_rule_idx :: int
  m_goto_state :: int
  m_style :: int
  matched_group :: int
  m_matched_text :: string
  capture_groups :: "CaptureGroupMatch list"
  sub_spans :: "TokenSpan list"

text \<open>
  Modelled from the spec: the member initialisers of \<^verbatim>\<open>MatchResult\<close> stand in
  \<^verbatim>\<open>internal_highlight.h\<close>, which is not part of the sources at hand. A fresh result is
  not matched, names no token rule (the code tests \<open>token_rule_idx >= 0\<close>) and has the
  sentinel \<open>-1\<close> as its goto state (the code tests \<open>goto_state >= 0\<close>).
\<close>

definition MatchResult_default :: MatchResult where
  "MatchResult_default =
     \<lparr>matched = False, m_start = 0, m_length = 0, m_state = - 1, token_rule_idx = - 1,
      m_goto_state = - 1, m_style = 0, matched_group = - 1, m_matched_text = [],
      capture_groups = [], sub_spans = []\<rparr>"

record TextLineInfo =
  info_line :: nat
  start_state :: int
  start_char_offset :: nat

record LineAnalyzeResult =
  highlight :: LineHighlight
  end_state :: int
  char_count :: nat

definition LineAnalyzeResult_default :: LineAnalyzeResult where
  "LineAnalyzeResult_default = \<lparr>highlight = LineHighlight_empty, end_state = 0, char_count = 0\<rparr>"

subsection \<open>Resolving the token rule and its capture groups\<close>

text \<open>The inner loop of \<^verbatim>\<open>findMatchedRuleAndGroup\<close>: one capture for every group of the
  rule that lies within the match.\<close>

definition collectGroups ::
  "StateRule TokenRule \<Rightarrow> OnigRegion \<Rightarrow> string \<Rightarrow> nat \<Rightarrow> nat \<Rightarrow> CaptureGroupMatch list" where
  "collectGroups token_rule region t match_start_byte match_end_byte =
     concat (map (\<lambda>g.
        let absolute_group = g + group_offset_start token_rule;
            group_start_byte = region_beg region absolute_group;
            group_end_byte = region_end region absolute_group
        in if group_start_byte \<ge> int match_start_byte \<and> group_end_byte \<le> int match_end_byte
           then
             let match_start_char = bytePosToCharPos t (nat group_start_byte);
                 match_end_char = bytePosToCharPos t (nat group_end_byte)
             in [\<lparr>g_group = g, g_style = getGroupStyleId token_rule g,
                  g_start = match_start_char, g_length = match_end_char - match_start_char\<rparr>]
           else [])
       [1 ..< Suc (group_count token_rule)])"

text \<open>The outer loop: the first rule, in declared order, whose group 0 spans the match.\<close>

fun findRule ::
  "StateRule TokenRule list \<Rightarrow> nat \<Rightarrow> OnigRegion \<Rightarrow> nat \<Rightarrow> nat
   \<Rightarrow> (nat \<times> StateRule TokenRule) option" where
  "findRule [] rule_idx region match_start_byte match_end_byte = None"
| "findRule (token_rule # rest) rule_idx region match_start_byte match_end_byte =
     (if region_beg region (group_offset_start token_rule) = int match_start_byte
         \<and> region_end region (group_offset_start token_rule) = int match_end_byte
      then Some (rule_idx, token_rule)
      else findRule rest (Suc rule_idx) region match_start_byte match_end_byte)"

definition findMatchedRuleAndGroup ::
  "StateRule \<Rightarrow> OnigRegion \<Rightarrow> string \<Rightarrow> nat \<Rightarrow> nat \<Rightarrow> MatchResult \<Rightarrow> MatchResult" where
  "findMatchedRuleAndGroup state_rule region t match_start_byte match_end_byte result =
     (case findRule (token_rules state_rule) 0 region match_start_byte match_end_byte of
        None \<Rightarrow> result
      | Some (rule_idx, token_rule) \<Rightarrow>
          result\<lparr>token_rule_idx := int rule_idx,
                 m_goto_state := rule_goto_state token_rule,
                 m_style := getGroupStyleId token_rule 0,
                 matched_group := int (group_offset_start token_rule),
                 capture_groups := capture_groups result
                    @ collectGroups token_rule region t match_start_byte match_end_byte\<rparr>)"

subsection \<open>Matching at a position\<close>

text \<open>
  \<^verbatim>\<open>matchAtPosition(text, start_char_pos, state_rule)\<close> up to and including its call of
  \<^verbatim>\<open>findMatchedRuleAndGroup\<close>: the search from the byte offset of the cursor, the rejection
  of a region with \<open>end \<le> start\<close>, and the match in character positions.
\<close>

definition searchAtPosition :: "string \<Rightarrow> nat \<Rightarrow> StateRule \<Rightarrow> MatchResult" where
  "searchAtPosition t start_char_pos state_rule =
     (let start_byte_pos = charPosToBytePos t start_char_pos in
      case onig_search (regex state_rule) t start_byte_pos of
        None \<Rightarrow> MatchResult_default
      | Some region \<Rightarrow>
          let match_start_byte = nat (region_beg region 0);
              match_end_byte = nat (region_end region 0)
          in if match_end_byte \<le> match_start_byte then MatchResult_default
             else
               let match_start_char = bytePosToCharPos t match_start_byte;
                   match_end_char = bytePosToCharPos t match_end_byte;
                   match_length_chars = match_end_char - match_start_char
               in findMatchedRuleAndGroup state_rule region t match_start_byte match_end_byte
                    (MatchResult_default
                       \<lparr>matched := True, m_start := match_start_char,
                        m_length := match_length_chars,
                        m_matched_text := utf8Substr t match_start_char match_length_chars\<rparr>))"

text \<open>A span in sub-match-local coordinates, as the sub-grammar loop builds it: a fresh
  \<^verbatim>\<open>TokenSpan\<close> with its two columns and its style set, and the inline style when the
  configuration asks for it.\<close>

definition localSpan ::
  "HighlightConfig \<Rightarrow> SyntaxRule \<Rightarrow> nat \<Rightarrow> nat \<Rightarrow> int \<Rightarrow> TokenSpan" where
  "localSpan cfg rule start_col end_col style =
     (let s = TokenSpan_default
                \<lparr>span_range :=
                   \<lparr>range_start = TextPosition_default\<lparr>column := start_col\<rparr>,
                    range_end = TextPosition_default\<lparr>column := end_col\<rparr>\<rparr>,
                 style_id := style\<rparr>
      in if cfg_inline_style cfg then s\<lparr>inline_style := getInlineStyle rule style\<rparr> else s)"

definition shiftColumns :: "nat \<Rightarrow> TokenSpan \<Rightarrow> TokenSpan" where
  "shiftColumns d s =
     s\<lparr>span_range :=
         \<lparr>range_start = (range_start (span_range s))\<lparr>column := start_column s + d\<rparr>,
          range_end = (range_end (span_range s))\<lparr>column := end_column s + d\<rparr>\<rparr>\<rparr>"

text \<open>What one sub-match contributes: its own sub-spans shifted by its start, else one
  span per capture group, else one span for the whole sub-match.\<close>

definition subMatchContent :: "HighlightConfig \<Rightarrow> SyntaxRule \<Rightarrow> MatchResult \<Rightarrow> TokenSpan list" where
  "subMatchContent cfg rule sub_res =
     (if sub_spans sub_res \<noteq> [] then map (shiftColumns (m_start sub_res)) (sub_spans sub_res)
      else if capture_groups sub_res \<noteq> [] then
        map (\<lambda>g. localSpan cfg rule (g_start g + m_start sub_res)
                    (g_start g + g_length g + m_start sub_res) (g_style g))
          (capture_groups sub_res)
      else [localSpan cfg rule (m_start sub_res) (m_start sub_res + m_length sub_res)
              (m_style sub_res)])"

definition gapBefore ::
  "HighlightConfig \<Rightarrow> SyntaxRule \<Rightarrow> int \<Rightarrow> nat \<Rightarrow> MatchResult \<Rightarrow> TokenSpan list" where
  "gapBefore cfg rule style sub_pos sub_res =
     (if m_start sub_res > sub_pos then [localSpan cfg rule sub_pos (m_start sub_res) style]
      else [])"

definition tailGap ::
  "HighlightConfig \<Rightarrow> SyntaxRule \<Rightarrow> int \<Rightarrow> nat \<Rightarrow> nat \<Rightarrow> TokenSpan list" where
  "tailGap cfg rule style sub_pos sub_len =
     (if sub_pos < sub_len then [localSpan cfg rule sub_pos sub_len style] else [])"

definition nextSubPos :: "MatchResult \<Rightarrow> nat" where
  "nextSubPos sub_res =
     (if m_length sub_res = 0 then Suc (m_start sub_res + m_length sub_res)
      else m_start sub_res + m_length sub_res)"

lemma countChars_Nil [simp]: "countChars [] = 0"
  by (simp add: countChars_def)

lemma countChars_Cons:
  "countChars (c # cs) = (if is_continuation c then countChars cs else Suc (countChars cs))"
  by (simp add: countChars_def)

lemma countChars_take_le: "countChars (take b t) \<le> countChars t"
  unfolding countChars_def
  by (metis append_take_drop_id filter_append le_add1 length_append)

lemma bytePosToCharPos_le: "bytePosToCharPos t b \<le> countChars t"
  by (simp add: bytePosToCharPos_def countChars_take_le)

lemma bytePosToCharPos_mono: "b \<le> b' \<Longrightarrow> bytePosToCharPos t b \<le> bytePosToCharPos t b'"
  unfolding bytePosToCharPos_def
  by (metis countChars_take_le min.absorb1 take_take)

lemma bytePosToCharPos_charPosToBytePos:
  "bytePosToCharPos t (charPosToBytePos t n) = min n (countChars t)"
  unfolding bytePosToCharPos_def
  by (induction t n rule: charPosToBytePos.induct) (auto simp: countChars_Cons split: nat.splits)

lemma charPos_lt_bytePosToCharPos:
  "n < countChars t \<Longrightarrow> charPosToBytePos t n < b \<Longrightarrow> n < bytePosToCharPos t b"
  unfolding bytePosToCharPos_def
proof (induction t n arbitrary: b rule: charPosToBytePos.induct)
  case (1 n)
  then show ?case by simp
next
  case (2 c cs n)
  then show ?case
    by (cases b; cases n) (auto simp: countChars_Cons split: if_splits)
qed

lemma findRule_Some:
  "findRule trs i region sb eb = Some (j, tr) \<Longrightarrow> i \<le> j \<and> j - i < length trs \<and> trs ! (j - i) = tr"
proof (induction trs arbitrary: i)
  case Nil
  then show ?case by simp
next
  case (Cons a trs)
  show ?case
  proof (cases "findRule (a # trs) i region sb eb = Some (i, a)")
    case True
    with Cons.prems show ?thesis by simp
  next
    case False
    with Cons.prems have "findRule trs (Suc i) region sb eb = Some (j, tr)"
      by (auto split: if_splits)
    from Cons.IH [OF this] show ?thesis
      by (auto simp: Suc_diff_Suc less_eq_Suc_le)
  qed
qed

lemma sub_state_rule_size:
  "i < length (token_rules sr) \<Longrightarrow> sub_state_rule (token_rules sr ! i) = Some sub
   \<Longrightarrow> size sub < size sr"
proof -
  assume i: "i < length (token_rules sr)" and s: "sub_state_rule (token_rules sr ! i) = Some sub"
  obtain rx trs l where sr: "sr = StateRule rx trs l" by (cases sr)
  let ?tr = "trs ! i"
  have mem: "?tr \<in> set trs" using i sr by simp
  obtain a b c d where tr: "?tr = TokenRule a b c d (Some sub)"
    using s sr by (cases ?tr) auto
  have "size sub < size_TokenRule size ?tr" by (simp add: tr)
  also have "\<dots> \<le> size_list (size_TokenRule size) trs"
    using mem by (simp add: size_list_estimation')
  also have "\<dots> < size sr" by (simp add: sr)
  finally show ?thesis .
qed

lemma searchAtPosition_idx:
  "0 \<le> token_rule_idx (searchAtPosition t p sr)
   \<Longrightarrow> nat (token_rule_idx (searchAtPosition t p sr)) < length (token_rules sr)"
  by (auto simp: searchAtPosition_def findMatchedRuleAndGroup_def MatchResult_default_def Let_def
      split: option.splits if_splits dest!: findRule_Some)

lemma findMatchedRuleAndGroup_keeps:
  "matched (findMatchedRuleAndGroup sr region t sb eb res) = matched res"
  "m_start (findMatchedRuleAndGroup sr region t sb eb res) = m_start res"
  "m_length (findMatchedRuleAndGroup sr region t sb eb res) = m_length res"
  "m_matched_text (findMatchedRuleAndGroup sr region t sb eb res) = m_matched_text res"
  "sub_spans (findMatchedRuleAndGroup sr region t sb eb res) = sub_spans res"
  by (simp_all add: findMatchedRuleAndGroup_def split: option.splits)

lemma searchAtPosition_matchedE:
  assumes "matched (searchAtPosition t p sr)"
  obtains region where
    "onig_search (regex sr) t (charPosToBytePos t p) = Some region"
    "nat (region_beg region 0) < nat (region_end region 0)"
    "m_start (searchAtPosition t p sr) = bytePosToCharPos t (nat (region_beg region 0))"
    "m_length (searchAtPosition t p sr) =
       bytePosToCharPos t (nat (region_end region 0)) - bytePosToCharPos t (nat (region_beg region 0))"
    "m_matched_text (searchAtPosition t p sr) =
       utf8Substr t (m_start (searchAtPosition t p sr)) (m_length (searchAtPosition t p sr))"
  using assms
  by (auto simp: searchAtPosition_def Let_def MatchResult_default_def findMatchedRuleAndGroup_keeps
      not_le split: option.splits if_splits)

lemma searchAtPosition_sub_spans [simp]: "sub_spans (searchAtPosition t p sr) = []"
  by (simp add: searchAtPosition_def Let_def MatchResult_default_def findMatchedRuleAndGroup_keeps
      split: option.splits)

lemma searchAtPosition_progress:
  assumes "matched (searchAtPosition t p sr)" and "p < countChars t"
  shows "p \<le> m_start (searchAtPosition t p sr)"
    and "p < m_start (searchAtPosition t p sr) + m_length (searchAtPosition t p sr)"
    and "m_start (searchAtPosition t p sr) + m_length (searchAtPosition t p sr) \<le> countChars t"
proof -
  from assms(1) obtain region where
    s: "onig_search (regex sr) t (charPosToBytePos t p) = Some region"
    and lt: "nat (region_beg region 0) < nat (region_end region 0)"
    and st: "m_start (searchAtPosition t p sr) = bytePosToCharPos t (nat (region_beg region 0))"
    and ln: "m_length (searchAtPosition t p sr) =
       bytePosToCharPos t (nat (region_end region 0)) - bytePosToCharPos t (nat (region_beg region 0))"
    by (rule searchAtPosition_matchedE)
  let ?b = "nat (region_beg region 0)" and ?e = "nat (region_end region 0)"
  have fw: "charPosToBytePos t p \<le> ?b"
    using onig_search_forward [OF s] by simp
  have "bytePosToCharPos t (charPosToBytePos t p) \<le> bytePosToCharPos t ?b"
    using fw by (rule bytePosToCharPos_mono)
  then show 1: "p \<le> m_start (searchAtPosition t p sr)"
    using assms(2) by (simp add: st bytePosToCharPos_charPosToBytePos)
  have "?b \<le> ?e" using lt by linarith
  then have mono: "bytePosToCharPos t ?b \<le> bytePosToCharPos t ?e"
    by (rule bytePosToCharPos_mono)
  then have sum: "m_start (searchAtPosition t p sr) + m_length (searchAtPosition t p sr)
      = bytePosToCharPos t ?e"
    by (simp add: st ln)
  have "p < bytePosToCharPos t ?e"
  proof (rule charPos_lt_bytePosToCharPos [OF assms(2)])
    show "charPosToBytePos t p < ?e" using fw lt by linarith
  qed
  then show 2: "p < m_start (searchAtPosition t p sr) + m_length (searchAtPosition t p sr)"
    by (simp add: sum)
  show "m_start (searchAtPosition t p sr) + m_length (searchAtPosition t p sr) \<le> countChars t"
    by (simp add: sum bytePosToCharPos_le)
qed

function matchAtPosition ::
    "HighlightConfig \<Rightarrow> SyntaxRule \<Rightarrow> string \<Rightarrow> nat \<Rightarrow> StateRule \<Rightarrow> MatchResult"
  and subLoop ::
    "HighlightConfig \<Rightarrow> SyntaxRule \<Rightarrow> string \<Rightarrow> StateRule \<Rightarrow> int \<Rightarrow> nat
     \<Rightarrow> TokenSpan list \<Rightarrow> TokenSpan list"
where
  "matchAtPosition cfg rule t start_char_pos state_rule =
     (let result = searchAtPosition t start_char_pos state_rule in
      if matched result \<and> token_rule_idx result \<ge> 0 then
        (case sub_state_rule (token_rules state_rule ! nat (token_rule_idx result)) of
           None \<Rightarrow> result
         | Some sub \<Rightarrow>
             result\<lparr>sub_spans :=
               subLoop cfg rule (m_matched_text result) sub (m_style result) 0
                 (sub_spans result)\<rparr>)
      else result)"
| "subLoop cfg rule t sub style sub_pos acc =
     (let sub_len = countChars t in
      if sub_pos < sub_len then
        (let sub_res = matchAtPosition cfg rule t sub_pos sub in
         if \<not> matched sub_res then acc @ tailGap cfg rule style sub_pos sub_len
         else subLoop cfg rule t sub style (nextSubPos sub_res)
                (acc @ gapBefore cfg rule style sub_pos sub_res @ subMatchContent cfg rule sub_res))
      else acc @ tailGap cfg rule style sub_pos sub_len)"
  by pat_completeness auto

lemma matchAtPosition_dom_fields:
  assumes "matchAtPosition_subLoop_dom (Inl (cfg, rule, t, p, sr))"
  shows "matched (matchAtPosition cfg rule t p sr) = matched (searchAtPosition t p sr)"
    and "m_start (matchAtPosition cfg rule t p sr) = m_start (searchAtPosition t p sr)"
    and "m_length (matchAtPosition cfg rule t p sr) = m_length (searchAtPosition t p sr)"
  using assms by (simp_all add: matchAtPosition.psimps Let_def split: option.splits)
termination matchAtPosition
proof (relation "measures [
    (\<lambda>x. case x of Inl (cfg, rule, t, p, sr) \<Rightarrow> size sr
                 | Inr (cfg, rule, t, sub, style, sub_pos, acc) \<Rightarrow> size sub),
    (\<lambda>x. case x of Inl _ \<Rightarrow> 0 | Inr _ \<Rightarrow> 1),
    (\<lambda>x. case x of Inl _ \<Rightarrow> 0
                 | Inr (cfg, rule, t, sub, style, sub_pos, acc) \<Rightarrow> countChars t - sub_pos)]",
    goal_cases)
  case 1
  then show ?case by simp
next
  case (2 cfg rule t start_char_pos state_rule result sub)
  then show ?case
    using sub_state_rule_size [OF searchAtPosition_idx] by auto
next
  case (3 cfg rule t sub style sub_pos acc)
  then show ?case by simp
next
  case (4 cfg rule t sub style sub_pos acc sub_len sub_res)
  then have m: "matched (searchAtPosition t sub_pos sub)" and lt: "sub_pos < countChars t"
    by (simp_all add: matchAtPosition_dom_fields)
  have "nextSubPos sub_res = nextSubPos (searchAtPosition t sub_pos sub)"
    using 4 by (simp add: nextSubPos_def matchAtPosition_dom_fields)
  moreover have "sub_pos < nextSubPos (searchAtPosition t sub_pos sub)"
    using searchAtPosition_progress(2) [OF m lt] by (simp add: nextSubPos_def)
  ultimately show ?case using lt by simp
qed

declare matchAtPosition.simps [simp del] subLoop.simps [simp del]

lemma matchAtPosition_fields:
  "matched (matchAtPosition cfg rule t p sr) = matched (searchAtPosition t p sr)"
  "m_start (matchAtPosition cfg rule t p sr) = m_start (searchAtPosition t p sr)"
  "m_length (matchAtPosition cfg rule t p sr) = m_length (searchAtPosition t p sr)"
  "m_goto_state (matchAtPosition cfg rule t p sr) = m_goto_state (searchAtPosition t p sr)"
  "m_style (matchAtPosition cfg rule t p sr) = m_style (searchAtPosition t p sr)"
  "token_rule_idx (matchAtPosition cfg rule t p sr) = token_rule_idx (searchAtPosition t p sr)"
  "capture_groups (matchAtPosition cfg rule t p sr) = capture_groups (searchAtPosition t p sr)"
  "m_matched_text (matchAtPosition cfg rule t p sr) = m_matched_text (searchAtPosition t p sr)"
  by (simp_all add: matchAtPosition.simps Let_def split: option.splits)

subsection \<open>Matching in a lexer state\<close>

text \<open>The overload of \<^verbatim>\<open>matchAtPosition\<close> that takes a state: the lookup of the state's
  rule is made only for a state that the grammar has.\<close>

definition matchAtPositionState ::
  "HighlightConfig \<Rightarrow> SyntaxRule \<Rightarrow> string \<Rightarrow> nat \<Rightarrow> int \<Rightarrow> MatchResult" where
  "matchAtPositionState cfg rule t start_char_pos syntax_state =
     (if \<not> containsRule rule syntax_state then MatchResult_default
      else matchAtPosition cfg rule t start_char_pos (getStateRule rule syntax_state))"

subsection \<open>Span emission\<close>

definition position :: "nat \<Rightarrow> nat \<Rightarrow> nat \<Rightarrow> TextPosition" where
  "position l c i = \<lparr>line = l, column = c, index = i\<rparr>"

text \<open>A sub-span on its way out: columns shifted to the line, line number and document
  indices stamped, state set. Style, goto state, matched text and inline style stay as
  the sub-span has them.\<close>

definition emitSubSpan :: "TextLineInfo \<Rightarrow> int \<Rightarrow> MatchResult \<Rightarrow> TokenSpan \<Rightarrow> TokenSpan" where
  "emitSubSpan info syntax_state match_result sub =
     (let start_col = start_column sub + m_start match_result;
          end_col = end_column sub + m_start match_result
      in sub\<lparr>span_range :=
               \<lparr>range_start = position (info_line info) start_col (start_char_offset info + start_col),
                range_end = position (info_line info) end_col (start_char_offset info + end_col)\<rparr>,
             state := syntax_state\<rparr>)"

definition emitWholeSpan ::
  "HighlightConfig \<Rightarrow> SyntaxRule \<Rightarrow> TextLineInfo \<Rightarrow> int \<Rightarrow> MatchResult \<Rightarrow> TokenSpan" where
  "emitWholeSpan cfg rule info syntax_state match_result =
     (let span = TokenSpan_default
            \<lparr>span_range :=
               \<lparr>range_start = position (info_line info) (m_start match_result)
                  (start_char_offset info + m_start match_result),
                range_end = position (info_line info) (m_start match_result + m_length match_result)
                  (start_char_offset info + m_start match_result + m_length match_result)\<rparr>,
             state := syntax_state,
             matched_text := m_matched_text match_result,
             style_id := m_style match_result\<rparr>;
          span = (if cfg_inline_style cfg
                  then span\<lparr>inline_style := getInlineStyle rule (m_style match_result)\<rparr> else span)
      in span\<lparr>goto_state := m_goto_state match_result\<rparr>)"

definition emitGroupSpan ::
  "HighlightConfig \<Rightarrow> SyntaxRule \<Rightarrow> TextLineInfo \<Rightarrow> int \<Rightarrow> MatchResult \<Rightarrow> CaptureGroupMatch
   \<Rightarrow> TokenSpan" where
  "emitGroupSpan cfg rule info syntax_state match_result group_match =
     (let span = TokenSpan_default
            \<lparr>span_range :=
               \<lparr>range_start = position (info_line info) (g_start group_match)
                  (start_char_offset info + g_start group_match),
                range_end = position (info_line info) (g_start group_match + g_length group_match)
                  (start_char_offset info + g_start group_match + g_length group_match)\<rparr>,
             state := syntax_state,
             style_id := g_style group_match\<rparr>;
          span = (if cfg_inline_style cfg
                  then span\<lparr>inline_style := getInlineStyle rule (g_style group_match)\<rparr> else span)
      in span\<lparr>goto_state := m_goto_state match_result\<rparr>)"

text \<open>The spans that \<^verbatim>\<open>addLineHighlightResult\<close> hands to \<^verbatim>\<open>pushOrMergeSpan\<close>, in order.\<close>

definition emittedSpans ::
  "HighlightConfig \<Rightarrow> SyntaxRule \<Rightarrow> TextLineInfo \<Rightarrow> int \<Rightarrow> MatchResult \<Rightarrow> TokenSpan list" where
  "emittedSpans cfg rule info syntax_state match_result =
     (if sub_spans match_result \<noteq> []
      then map (emitSubSpan info syntax_state match_result) (sub_spans match_result)
      else if capture_groups match_result = []
      then [emitWholeSpan cfg rule info syntax_state match_result]
      else map (emitGroupSpan cfg rule info syntax_state match_result) (capture_groups match_result))"

definition addLineHighlightResult ::
  "HighlightConfig \<Rightarrow> SyntaxRule \<Rightarrow> LineHighlight \<Rightarrow> TextLineInfo \<Rightarrow> int \<Rightarrow> MatchResult
   \<Rightarrow> LineHighlight" where
  "addLineHighlightResult cfg rule h info syntax_state match_result =
     foldl pushOrMergeSpan h (emittedSpans cfg rule info syntax_state match_result)"

subsection \<open>Tokenizing a line\<close>

lemma matchAtPositionState_progress:
  assumes "matched (matchAtPositionState cfg rule t p st)" and "p < countChars t"
  shows "p < m_start (matchAtPositionState cfg rule t p st)
           + m_length (matchAtPositionState cfg rule t p st)"
    and "m_start (matchAtPositionState cfg rule t p st)
           + m_length (matchAtPositionState cfg rule t p st) \<le> countChars t"
  using assms searchAtPosition_progress [of t p "getStateRule rule st"]
  by (auto simp: matchAtPositionState_def matchAtPosition_fields MatchResult_default_def
      split: if_splits)

function analyzeLine_loop ::
  "HighlightConfig \<Rightarrow> SyntaxRule \<Rightarrow> string \<Rightarrow> TextLineInfo \<Rightarrow> nat \<Rightarrow> int \<Rightarrow> LineHighlight
   \<Rightarrow> LineHighlight \<times> int" where
  "analyzeLine_loop cfg rule t info current_char_pos current_state h =
     (if current_char_pos < countChars t then
        (let match_result = matchAtPositionState cfg rule t current_char_pos current_state in
         if \<not> matched match_result
         then analyzeLine_loop cfg rule t info (Suc current_char_pos) current_state h
         else analyzeLine_loop cfg rule t info (m_start match_result + m_length match_result)
                (if m_goto_state match_result \<ge> 0 then m_goto_state match_result
                 else current_state)
                (addLineHighlightResult cfg rule h info current_state match_result))
      else (h, current_state))"
  by pat_completeness auto
termination
proof (relation "measure (\<lambda>(cfg, rule, t, info, p, st, h). countChars t - p)", goal_cases)
  case 1
  then show ?case by simp
next
  case (2 cfg rule t info p st h mr)
  then show ?case by auto
next
  case (3 cfg rule t info p st h mr)
  then show ?case
    using matchAtPositionState_progress(1) [of cfg rule t p st] by auto
qed

declare analyzeLine_loop.simps [simp del]

definition analyzeLine ::
  "HighlightConfig \<Rightarrow> SyntaxRule \<Rightarrow> string \<Rightarrow> TextLineInfo \<Rightarrow> LineAnalyzeResult" where
  "analyzeLine cfg rule t info =
     (if t = [] then
        LineAnalyzeResult_default\<lparr>end_state := start_state info, char_count := 0\<rparr>
      else
        let line_char_count = countChars t;
            (h, current_state) =
               analyzeLine_loop cfg rule t info 0 (start_state info) LineHighlight_empty;
            state_rule = getStateRule rule current_state;
            current_state = (if line_end_state state_rule \<ge> 0 then line_end_state state_rule
                             else current_state)
        in \<lparr>highlight = h, end_state = current_state, char_count = line_char_count\<rparr>)"

section \<open>Text analyzer\<close>

definition addLine :: "DocumentHighlight \<Rightarrow> LineHighlight \<Rightarrow> DocumentHighlight" where
  "addLine h l = h\<lparr>lines := lines h @ [l]\<rparr>"

definition newline :: char where
  "newline = CHR 0x0A"

definition carriage_return :: char where
  "carriage_return = CHR 0x0D"

text \<open>\<^verbatim>\<open>text.find('\n', start)\<close>: the offset of the first newline at or after \<open>start\<close>, or
  \<^verbatim>\<open>npos\<close>.\<close>

definition find_newline :: "string \<Rightarrow> nat \<Rightarrow> nat option" where
  "find_newline t start =
     (let k = length (takeWhile (\<lambda>c. c \<noteq> newline) (drop start t))
      in if start + k < length t then Some (start + k) else None)"

text \<open>The line between two offsets with a trailing carriage return taken off, and
  whether there was one.\<close>

definition strip_cr :: "string \<Rightarrow> bool \<times> string" where
  "strip_cr line_text =
     (let has_cr = (line_text \<noteq> [] \<and> last line_text = carriage_return)
      in (has_cr, if has_cr then butlast line_text else line_text))"

lemma find_newline_Some:
  "find_newline t start = Some e \<Longrightarrow> start \<le> e \<and> e < length t"
  by (auto simp: find_newline_def Let_def split: if_splits)

function analyzeText_loop ::
  "HighlightConfig \<Rightarrow> SyntaxRule \<Rightarrow> string \<Rightarrow> TextLineInfo \<Rightarrow> nat \<Rightarrow> DocumentHighlight
   \<Rightarrow> DocumentHighlight" where
  "analyzeText_loop cfg rule t line_info start h =
     (case find_newline t start of
        Some e \<Rightarrow>
          (let len = e - start;
               (has_cr, line_text) = strip_cr (take len (drop start t));
               result = analyzeLine cfg rule line_text line_info;
               h = addLine h (highlight result);
               line_info = line_info
                 \<lparr>info_line := info_line line_info + 1,
                  start_state := end_state result,
                  start_char_offset := start_char_offset line_info + char_count result
                     + (if has_cr then 1 else 0) + 1\<rparr>
           in analyzeText_loop cfg rule t line_info (e + 1) h)
      | None \<Rightarrow>
          (let (has_cr, last_line) = strip_cr (drop start t);
               result = analyzeLine cfg rule last_line line_info
           in addLine h (highlight result)))"
  by pat_completeness auto
termination
  by (relation "measure (\<lambda>(cfg, rule, t, line_info, start, h). length t - start)")
     (auto dest!: find_newline_Some)

declare analyzeText_loop.simps [simp del]

definition analyzeText :: "HighlightConfig \<Rightarrow> SyntaxRule \<Rightarrow> string \<Rightarrow> DocumentHighlight" where
  "analyzeText cfg rule t =
     (if t = [] then \<lparr>lines = []\<rparr>
      else analyzeText_loop cfg rule t
             \<lparr>info_line = 0, start_state = kDefaultStateId, start_char_offset = 0\<rparr> 0
             \<lparr>lines = []\<rparr>)"

section \<open>Document analyzer\<close>

subsection \<open>The document buffer\<close>

text \<open>
  Modelled from the spec: the class \<^verbatim>\<open>Document\<close> is not part of the sources at hand. The
  spec lists the operations the analyzer consumes. A document is the list of its lines,
  each with its text and its ending; the width of an ending is 0 for none, 1 for LF and
  for CR, 2 for CRLF; the character index of a line counts the characters of the lines
  before it with their endings.
\<close>

datatype LineEnding = NONE | LF | CR | CRLF

record DocumentLine =
  line_text :: string
  ending :: LineEnding

record Document =
  doc_lines :: "DocumentLine list"

fun getLineEndingWidth :: "LineEnding \<Rightarrow> nat" where
  "getLineEndingWidth NONE = 0"
| "getLineEndingWidth LF = 1"
| "getLineEndingWidth CR = 1"
| "getLineEndingWidth CRLF = 2"

definition getLineCount :: "Document \<Rightarrow> nat" where
  "getLineCount d = length (doc_lines d)"

definition getLine :: "Document \<Rightarrow> nat \<Rightarrow> DocumentLine" where
  "getLine d i = doc_lines d ! i"

definition line_width :: "DocumentLine \<Rightarrow> nat" where
  "line_width l = countChars (line_text l) + getLineEndingWidth (ending l)"

definition charIndexOfLine :: "Document \<Rightarrow> nat \<Rightarrow> nat" where
  "charIndexOfLine d i = sum_list (map line_width (take i (doc_lines d)))"

text \<open>
  Modelled from the spec: \<^verbatim>\<open>Document::getLineCharCount\<close> is not part of the sources at
  hand. The spec names it the char count of a line; its char count of a text is the
  number of the text's characters, and it adds the width of the line ending apart. So the
  char count of a line is that of the line's text.
\<close>

definition getLineCharCount :: "Document \<Rightarrow> nat \<Rightarrow> nat" where
  "getLineCharCount d i = countChars (line_text (getLine d i))"

subsection \<open>Full analysis\<close>

text \<open>
  The state of an \<^verbatim>\<open>InternalDocumentAnalyzer\<close>. The functions return what the analyzer is
  afterwards; the highlight they hand out is the analyzer's own \<open>m_highlight\<close>. A null
  rule makes them return the null pointer; a vector accessed outside its bounds is
  undefined behaviour, which the model reports.
\<close>

record InternalDocumentAnalyzer =
  m_document :: Document
  m_rule :: "SyntaxRule option"
  m_config :: HighlightConfig
  m_line_syntax_states :: "int list"
  m_highlight :: DocumentHighlight

datatype 'a outcome = Null | OutOfBounds | Done 'a

definition resize :: "int list \<Rightarrow> nat \<Rightarrow> int list" where
  "resize S n = take n S @ replicate (n - length S) 0"

function analyzeHighlight_loop ::
  "HighlightConfig \<Rightarrow> SyntaxRule \<Rightarrow> Document \<Rightarrow> nat \<Rightarrow> int \<Rightarrow> nat \<Rightarrow> int list
   \<Rightarrow> DocumentHighlight \<Rightarrow> int list \<times> DocumentHighlight" where
  "analyzeHighlight_loop cfg rule d line_num current_state line_start_index S h =
     (if line_num < getLineCount d then
        (let info = \<lparr>info_line = line_num, start_state = current_state,
                      start_char_offset = line_start_index\<rparr>;
             document_line = getLine d line_num;
             result = analyzeLine cfg rule (line_text document_line) info
         in analyzeHighlight_loop cfg rule d (Suc line_num) (end_state result)
              (line_start_index + char_count result
                 + getLineEndingWidth (ending (getLine d line_num)))
              (S[line_num := end_state result]) (addLine h (highlight result)))
      else (S, h))"
  by pat_completeness auto
termination
  by (relation "measure (\<lambda>(cfg, rule, d, line_num, st, idx, S, h). getLineCount d - line_num)")
     auto

declare analyzeHighlight_loop.simps [simp del]

definition analyzeHighlight :: "InternalDocumentAnalyzer \<Rightarrow> InternalDocumentAnalyzer outcome" where
  "analyzeHighlight a =
     (case m_rule a of
        None \<Rightarrow> Null
      | Some rule \<Rightarrow>
          (let line_count = getLineCount (m_document a);
               (S, h) = analyzeHighlight_loop (m_config a) rule (m_document a) 0 kDefaultStateId 0
                          (resize (m_line_syntax_states a) line_count) \<lparr>lines = []\<rparr>
           in Done (a\<lparr>m_line_syntax_states := S, m_highlight := h\<rparr>)))"

subsection \<open>Incremental analysis\<close>

text \<open>\<^verbatim>\<open>vector::erase(first, last)\<close> and \<^verbatim>\<open>vector::insert(pos, n, value)\<close>, for positions
  within the vector.\<close>

definition erase_range :: "'a list \<Rightarrow> nat \<Rightarrow> nat \<Rightarrow> 'a list" where
  "erase_range xs first lst = take first xs @ drop lst xs"

definition insert_n :: "'a list \<Rightarrow> nat \<Rightarrow> nat \<Rightarrow> 'a \<Rightarrow> 'a list" where
  "insert_n xs pos n v = take pos xs @ replicate n v @ drop pos xs"

text \<open>The comparison \<open>line > change_end_line\<close>: \<open>change_end_line\<close> is a \<^verbatim>\<open>size_t\<close> made from
  a signed sum, so a negative sum is a number no line exceeds.\<close>

definition beyond_change :: "nat \<Rightarrow> int \<Rightarrow> bool" where
  "beyond_change ln change_end_line \<longleftrightarrow> 0 \<le> change_end_line \<and> int ln > change_end_line"

text \<open>The loop that tokenizes from the first changed line until the state is stable. It
  returns the line and the line start index it stopped at, the state vector and the line
  highlights.\<close>

function retokenize_loop ::
  "HighlightConfig \<Rightarrow> SyntaxRule \<Rightarrow> Document \<Rightarrow> int \<Rightarrow> nat \<Rightarrow> bool \<Rightarrow> int \<Rightarrow> nat
   \<Rightarrow> int list \<Rightarrow> LineHighlight list
   \<Rightarrow> (nat \<times> nat \<times> int list \<times> LineHighlight list) outcome" where
  "retokenize_loop cfg rule d change_end_line ln stable_flag current_state line_start_index S ls =
     (if ln < getLineCount d then
        if stable_flag then Done (ln, line_start_index, S, ls)
        else if ln < length S \<and> ln < length ls then
          (let old_state = S ! ln;
               line_info = \<lparr>info_line = ln, start_state = current_state,
                             start_char_offset = line_start_index\<rparr>;
               document_line = getLine d ln;
               result = analyzeLine cfg rule (line_text document_line) line_info;
               S = S[ln := end_state result];
               current_state = end_state result;
               stable_flag = (if beyond_change ln change_end_line \<and> old_state = current_state
                         then (if LineHighlight_eq (ls ! ln) (highlight result) then True
                               else stable_flag)
                         else stable_flag);
               ls = ls[ln := highlight result];
               line_start_index = line_start_index + char_count result
                  + getLineEndingWidth (ending (getLine d ln))
           in retokenize_loop cfg rule d change_end_line (Suc ln) stable_flag current_state
                line_start_index S ls)
        else OutOfBounds
      else Done (ln, line_start_index, S, ls))"
  by pat_completeness auto
termination
  by (relation "measure (\<lambda>(cfg, rule, d, cel, ln, stable_flag, st, idx, S, ls). getLineCount d - ln)")
     auto

declare retokenize_loop.simps [simp del]

text \<open>The index fix-up of one line, and the loop over the lines that were not tokenized
  again. The call of \<^verbatim>\<open>Document::getLineCharCount\<close> is the parameter \<open>lineCharCount\<close>, so
  that the loop can be stated for either reading of that count.\<close>

definition reindexSpan :: "nat \<Rightarrow> TokenSpan \<Rightarrow> TokenSpan" where
  "reindexSpan line_start_index span =
     span\<lparr>span_range :=
       \<lparr>range_start = (range_start (span_range span))
           \<lparr>index := line_start_index + start_column span\<rparr>,
        range_end = (range_end (span_range span))
           \<lparr>index := line_start_index + end_column span\<rparr>\<rparr>\<rparr>"

definition reindexLine :: "nat \<Rightarrow> LineHighlight \<Rightarrow> LineHighlight" where
  "reindexLine line_start_index l = l\<lparr>spans := map (reindexSpan line_start_index) (spans l)\<rparr>"

function fixup_loop ::
  "(Document \<Rightarrow> nat \<Rightarrow> nat) \<Rightarrow> Document \<Rightarrow> nat \<Rightarrow> nat \<Rightarrow> LineHighlight list
   \<Rightarrow> LineHighlight list outcome" where
  "fixup_loop lineCharCount d ln line_start_index ls =
     (if ln < getLineCount d then
        if ln < length ls then
          fixup_loop lineCharCount d (Suc ln) (line_start_index + lineCharCount d ln)
            (ls[ln := reindexLine line_start_index (ls ! ln)])
        else OutOfBounds
      else Done ls)"
  by pat_completeness auto
termination
  by (relation "measure (\<lambda>(lcc, d, ln, idx, ls). getLineCount d - ln)") auto

declare fixup_loop.simps [simp del]

text \<open>The state vector and the line highlights brought to the new line count: for a
  negative line change the entries from \<open>end_line + line_change + 1\<close> up to \<open>end_line\<close> are
  erased, for a positive one \<open>line_change\<close> fresh entries are put in at \<open>end_line + 1\<close>.\<close>

definition resizeVectors ::
  "int list \<Rightarrow> LineHighlight list \<Rightarrow> nat \<Rightarrow> int \<Rightarrow> (int list \<times> LineHighlight list) outcome" where
  "resizeVectors S ls end_line line_change =
     (if line_change < 0 then
        if 0 \<le> int end_line + line_change + 1 \<and> end_line + 1 \<le> length S
           \<and> end_line + 1 \<le> length ls
        then Done (erase_range S (nat (int end_line + line_change + 1)) (end_line + 1),
                   erase_range ls (nat (int end_line + line_change + 1)) (end_line + 1))
        else OutOfBounds
      else if line_change > 0 then
        if end_line + 1 \<le> length S \<and> end_line + 1 \<le> length ls
        then Done (insert_n S (end_line + 1) (nat line_change) 0,
                   insert_n ls (end_line + 1) (nat line_change) LineHighlight_empty)
        else OutOfBounds
      else Done (S, ls))"

text \<open>The state the tokenizer starts from: the end state of the line before the first
  changed line, or the default state.\<close>

definition seedState :: "int list \<Rightarrow> nat \<Rightarrow> int outcome" where
  "seedState S change_start_line =
     (if change_start_line > 0 then
        if change_start_line - 1 < length S then Done (S ! (change_start_line - 1))
        else OutOfBounds
      else Done kDefaultStateId)"

text \<open>The index fix-up behind the loop, and what the analyzer is at the end.\<close>

definition finishIncremental ::
  "(Document \<Rightarrow> nat \<Rightarrow> nat) \<Rightarrow> InternalDocumentAnalyzer \<Rightarrow> Document
   \<Rightarrow> (nat \<times> nat \<times> int list \<times> LineHighlight list) outcome \<Rightarrow> InternalDocumentAnalyzer outcome" where
  "finishIncremental lineCharCount a d r =
     (case r of
        Null \<Rightarrow> Null
      | OutOfBounds \<Rightarrow> OutOfBounds
      | Done (ln, line_start_index, S, ls) \<Rightarrow>
          (case (if show_index (m_config a)
                 then fixup_loop lineCharCount d ln line_start_index ls
                 else Done ls) of
             Null \<Rightarrow> Null
           | OutOfBounds \<Rightarrow> OutOfBounds
           | Done ls \<Rightarrow>
               Done (a\<lparr>m_document := d, m_line_syntax_states := S,
                       m_highlight := (m_highlight a)\<lparr>lines := ls\<rparr>\<rparr>)))"

text \<open>
  \<^verbatim>\<open>analyzeHighlightIncremental(range, new_text)\<close>. \<^verbatim>\<open>Document::patch\<close> is not part of the
  sources at hand: what it leaves of the document and the line change it returns are the
  parameters \<open>patched\<close> and \<open>line_change\<close>.
\<close>

definition analyzeHighlightIncremental ::
  "(Document \<Rightarrow> nat \<Rightarrow> nat) \<Rightarrow> InternalDocumentAnalyzer \<Rightarrow> TextRange \<Rightarrow> Document \<Rightarrow> int
   \<Rightarrow> InternalDocumentAnalyzer outcome" where
  "analyzeHighlightIncremental lineCharCount a rng patched line_change =
     (case m_rule a of
        None \<Rightarrow> Null
      | Some rule \<Rightarrow>
          (let change_start_line = line (range_start rng);
               change_end_line = int (line (range_end rng)) + line_change
           in case resizeVectors (m_line_syntax_states a) (lines (m_highlight a))
                     (line (range_end rng)) line_change of
                Null \<Rightarrow> Null
              | OutOfBounds \<Rightarrow> OutOfBounds
              | Done (S, ls) \<Rightarrow>
                  (case seedState S change_start_line of
                     Null \<Rightarrow> Null
                   | OutOfBounds \<Rightarrow> OutOfBounds
                   | Done current_state \<Rightarrow>
                       finishIncremental lineCharCount a patched
                         (retokenize_loop (m_config a) rule patched change_end_line
                            change_start_line False current_state
                            (charIndexOfLine patched change_start_line) S ls))))"

section \<open>Notions for the properties\<close>

subsection \<open>Merge closure\<close>

text \<open>The pair of neighbours that the merge rule forbids, and a span list free of it.\<close>

definition mergeable :: "TokenSpan \<Rightarrow> TokenSpan \<Rightarrow> bool" where
  "mergeable a b \<longleftrightarrow> end_column a = start_column b \<and> style_id a = style_id b"

fun merge_closed :: "TokenSpan list \<Rightarrow> bool" where
  "merge_closed [] = True"
| "merge_closed [a] = True"
| "merge_closed (a # b # r) = (\<not> mergeable a b \<and> merge_closed (b # r))"

subsection \<open>The scan loop with its iterations recorded\<close>

text \<open>The scan loop of \<^verbatim>\<open>analyzeLine\<close> once more, returning beside its result one entry
  per iteration: the cursor at which the body ran and whether a match was emitted.\<close>

function analyzeLine_traced ::
  "HighlightConfig \<Rightarrow> SyntaxRule \<Rightarrow> string \<Rightarrow> TextLineInfo \<Rightarrow> nat \<Rightarrow> int \<Rightarrow> LineHighlight
   \<Rightarrow> (LineHighlight \<times> int) \<times> (nat \<times> bool) list" where
  "analyzeLine_traced cfg rule t info current_char_pos current_state h =
     (if current_char_pos < countChars t then
        (let match_result = matchAtPositionState cfg rule t current_char_pos current_state in
         if \<not> matched match_result
         then
           (let (r, tr) = analyzeLine_traced cfg rule t info (Suc current_char_pos) current_state h
            in (r, (current_char_pos, False) # tr))
         else
           (let (r, tr) =
                  analyzeLine_traced cfg rule t info (m_start match_result + m_length match_result)
                    (if m_goto_state match_result \<ge> 0 then m_goto_state match_result
                     else current_state)
                    (addLineHighlightResult cfg rule h info current_state match_result)
            in (r, (current_char_pos, True) # tr)))
      else ((h, current_state), []))"
  by pat_completeness auto
termination
proof (relation "measure (\<lambda>(cfg, rule, t, info, p, st, h). countChars t - p)", goal_cases)
  case 1
  then show ?case by simp
next
  case (2 cfg rule t info p st h mr)
  then show ?case by auto
next
  case (3 cfg rule t info p st h mr)
  then show ?case
    using matchAtPositionState_progress(1) [of cfg rule t p st] by auto
qed

declare analyzeLine_traced.simps [simp del]

subsection \<open>Unset goto states\<close>

text \<open>A span whose goto state is as a fresh \<^verbatim>\<open>TokenSpan\<close> has it.\<close>

definition goto_unset :: "TokenSpan \<Rightarrow> bool" where
  "goto_unset s \<longleftrightarrow> goto_state s = goto_state TokenSpan_default"

subsection \<open>Tiling\<close>

text \<open>Spans that tile the columns from \<open>a\<close> to \<open>b\<close>: each begins where the one before
  it ends, and none is empty.\<close>

fun tiles :: "nat \<Rightarrow> TokenSpan list \<Rightarrow> nat \<Rightarrow> bool" where
  "tiles a [] b = (a = b)"
| "tiles a (s # ss) b = (start_column s = a \<and> a < end_column s \<and> tiles (end_column s) ss b)"

text \<open>A sub-grammar in which every rule with capture groups, at any depth, has a
  sub-grammar of its own.\<close>

function no_bare_groups :: "StateRule \<Rightarrow> bool" where
  "no_bare_groups sr =
     list_all (\<lambda>i. case sub_state_rule (token_rules sr ! i) of
                      None \<Rightarrow> group_count (token_rules sr ! i) = 0
                    | Some sub \<Rightarrow> no_bare_groups sub)
       [0 ..< length (token_rules sr)]"
  by pat_completeness auto
termination
  by (relation "measure size") (auto simp: sub_state_rule_size)

declare no_bare_groups.simps [simp del]

text \<open>The sub-grammar of the rule that produced a match, if it has one.\<close>

definition winner_sub :: "StateRule \<Rightarrow> MatchResult \<Rightarrow> StateRule option" where
  "winner_sub sr r =
     (if matched r \<and> 0 \<le> token_rule_idx r
      then sub_state_rule (token_rules sr ! nat (token_rule_idx r)) else None)"

subsection \<open>Equality of document highlights\<close>

text \<open>\<^verbatim>\<open>DocumentHighlight\<close> equality: pairwise on the lines.\<close>

definition DocumentHighlight_eq :: "DocumentHighlight \<Rightarrow> DocumentHighlight \<Rightarrow> bool" where
  "DocumentHighlight_eq a b \<longleftrightarrow>
     length (lines a) = length (lines b) \<and> list_all2 LineHighlight_eq (lines a) (lines b)"

subsection \<open>The tokenizer call of the document loops\<close>

text \<open>The call of \<^verbatim>\<open>analyzeLine\<close> in the body of the loops over the lines of a document.\<close>

definition analyzeDocumentLine ::
  "HighlightConfig \<Rightarrow> SyntaxRule \<Rightarrow> Document \<Rightarrow> nat \<Rightarrow> int \<Rightarrow> nat \<Rightarrow> LineAnalyzeResult" where
  "analyzeDocumentLine cfg rule d ln current_state line_start_index =
     analyzeLine cfg rule (line_text (getLine d ln))
       \<lparr>info_line = ln, start_state = current_state, start_char_offset = line_start_index\<rparr>"

subsection \<open>Index consistency\<close>

text \<open>A span whose two document indices are the given line start offset plus its columns;
  a line highlight all of whose spans are so; line highlights that are so for the
  character index that each line has in a document.\<close>

definition span_index_ok :: "nat \<Rightarrow> TokenSpan \<Rightarrow> bool" where
  "span_index_ok off s \<longleftrightarrow>
     start_index s = off + start_column s \<and> end_index s = off + end_column s"

definition line_index_ok :: "nat \<Rightarrow> LineHighlight \<Rightarrow> bool" where
  "line_index_ok off l \<longleftrightarrow> list_all (span_index_ok off) (spans l)"

definition highlight_index_ok :: "Document \<Rightarrow> LineHighlight list \<Rightarrow> bool" where
  "highlight_index_ok d ls \<longleftrightarrow>
     list_all (\<lambda>i. line_index_ok (charIndexOfLine d i) (ls ! i)) [0 ..< length ls]"

section \<open>Facts\<close>

subsection \<open>Merging\<close>

lemma merge_closed_snoc:
  "merge_closed (xs @ [a]) \<Longrightarrow> \<not> mergeable a b \<Longrightarrow> merge_closed (xs @ [a, b])"
  by (induction xs rule: merge_closed.induct) auto

lemma merge_closed_replace_last:
  "merge_closed (xs @ [a]) \<Longrightarrow> start_column a' = start_column a \<Longrightarrow> style_id a' = style_id a
   \<Longrightarrow> merge_closed (xs @ [a'])"
  by (induction xs rule: merge_closed.induct) (auto simp: mergeable_def)

lemma extend_end_keeps:
  "start_column (extend_end l s) = start_column l"
  "style_id (extend_end l s) = style_id l"
  "state (extend_end l s) = state l"
  "goto_state (extend_end l s) = goto_state l"
  "matched_text (extend_end l s) = matched_text l"
  "inline_style (extend_end l s) = inline_style l"
  "range_start (span_range (extend_end l s)) = range_start (span_range l)"
  "end_column (extend_end l s) = end_column s"
  "end_index (extend_end l s) = end_index s"
  "line (range_end (span_range (extend_end l s))) = line (range_end (span_range l))"
  by (simp_all add: extend_end_def start_column_def end_column_def end_index_def)

lemma pushOrMergeSpan_closed:
  assumes "merge_closed (spans h)"
  shows "merge_closed (spans (pushOrMergeSpan h s))"
proof (cases "spans h = []")
  case True
  then show ?thesis by (simp add: pushOrMergeSpan_def)
next
  case False
  then obtain xs a where sp: "spans h = xs @ [a]"
    by (metis append_butlast_last_id)
  show ?thesis
  proof (cases "mergeable a s")
    case True
    have "merge_closed (xs @ [extend_end a s])"
      using assms sp by (auto intro: merge_closed_replace_last simp: extend_end_keeps)
    with True sp show ?thesis
      by (simp add: pushOrMergeSpan_def mergeable_def)
  next
    case False
    have "merge_closed (xs @ [a, s])"
      using assms sp False by (auto intro: merge_closed_snoc)
    with False sp show ?thesis
      by (auto simp: pushOrMergeSpan_def mergeable_def)
  qed
qed

lemma foldl_pushOrMergeSpan_closed:
  "merge_closed (spans h) \<Longrightarrow> merge_closed (spans (foldl pushOrMergeSpan h xs))"
  by (induction xs arbitrary: h) (auto simp: pushOrMergeSpan_closed)

subsection \<open>Progress of the scan loop\<close>

lemma bytePosToCharPos_Suc_lead:
  "b < length t \<Longrightarrow> \<not> is_continuation (t ! b)
   \<Longrightarrow> bytePosToCharPos t (Suc b) = Suc (bytePosToCharPos t b)"
  by (simp add: bytePosToCharPos_def countChars_def take_Suc_conv_app_nth)

lemma searchAtPosition_positive:
  assumes "matched (searchAtPosition t p sr)"
  shows "0 < m_length (searchAtPosition t p sr)"
proof -
  from assms obtain region where
    s: "onig_search (regex sr) t (charPosToBytePos t p) = Some region"
    and lt: "nat (region_beg region 0) < nat (region_end region 0)"
    and ln: "m_length (searchAtPosition t p sr) =
       bytePosToCharPos t (nat (region_end region 0)) - bytePosToCharPos t (nat (region_beg region 0))"
    by (rule searchAtPosition_matchedE)
  let ?b = "nat (region_beg region 0)" and ?e = "nat (region_end region 0)"
  have "?e \<le> length t" using onig_search_within [OF s] by simp
  with lt have b: "?b < length t" by linarith
  have "bytePosToCharPos t (Suc ?b) = Suc (bytePosToCharPos t ?b)"
    using b onig_search_boundary [OF s b] by (rule bytePosToCharPos_Suc_lead)
  moreover have "bytePosToCharPos t (Suc ?b) \<le> bytePosToCharPos t ?e"
    using lt by (intro bytePosToCharPos_mono) linarith
  ultimately show ?thesis by (simp add: ln)
qed

lemma searchAtPosition_zero_width:
  assumes "onig_search (regex sr) t (charPosToBytePos t p) = Some region"
    and "region_end region 0 \<le> region_beg region 0"
  shows "\<not> matched (searchAtPosition t p sr)"
  using assms
  by (simp add: searchAtPosition_def Let_def MatchResult_default_def nat_mono)

lemma analyzeLine_traced_result:
  "fst (analyzeLine_traced cfg rule t info p st h) = analyzeLine_loop cfg rule t info p st h"
proof (induction cfg rule t info p st h rule: analyzeLine_traced.induct)
  case (1 cfg rule t info p st h)
  show ?case
    using 1
    by (subst analyzeLine_traced.simps, subst analyzeLine_loop.simps)
       (auto simp: Let_def split: prod.splits)
qed

lemma analyzeLine_traced_cursors:
  "\<forall>e \<in> set (snd (analyzeLine_traced cfg rule t info p st h)). p \<le> fst e \<and> fst e < countChars t"
proof (induction cfg rule t info p st h rule: analyzeLine_traced.induct)
  case (1 cfg rule t info p st h)
  show ?case
  proof (cases "p < countChars t")
    case False
    then show ?thesis by (subst analyzeLine_traced.simps) simp
  next
    case True
    let ?mr = "matchAtPositionState cfg rule t p st"
    show ?thesis
    proof (cases "matched ?mr")
      case False
      with True 1(1) [OF True refl] show ?thesis
        by (subst analyzeLine_traced.simps) (force simp: Let_def split: prod.splits)
    next
      case m: True
      have "p < m_start ?mr + m_length ?mr"
        using m True by (rule matchAtPositionState_progress(1))
      with True m 1(2) [OF True refl] show ?thesis
        by (subst analyzeLine_traced.simps) (force simp: Let_def split: prod.splits)
    qed
  qed
qed

lemma analyzeLine_traced_sorted:
  "sorted_wrt (<) (map fst (snd (analyzeLine_traced cfg rule t info p st h)))"
proof (induction cfg rule t info p st h rule: analyzeLine_traced.induct)
  case (1 cfg rule t info p st h)
  show ?case
  proof (cases "p < countChars t")
    case False
    then show ?thesis by (subst analyzeLine_traced.simps) simp
  next
    case True
    let ?mr = "matchAtPositionState cfg rule t p st"
    show ?thesis
    proof (cases "matched ?mr")
      case False
      with True 1(1) [OF True refl]
        analyzeLine_traced_cursors [of cfg rule t info "Suc p" st h]
      show ?thesis
        by (subst analyzeLine_traced.simps) (force simp: Let_def split: prod.splits)
    next
      case m: True
      have "p < m_start ?mr + m_length ?mr"
        using m True by (rule matchAtPositionState_progress(1))
      with True m 1(2) [OF True refl]
        analyzeLine_traced_cursors [of cfg rule t info "m_start ?mr + m_length ?mr"
          "if 0 \<le> m_goto_state ?mr then m_goto_state ?mr else st"
          "addLineHighlightResult cfg rule h info st ?mr"]
      show ?thesis
        by (subst analyzeLine_traced.simps) (force simp: Let_def split: prod.splits)
    qed
  qed
qed

lemma analyzeLine_traced_length:
  "length (snd (analyzeLine_traced cfg rule t info p st h)) \<le> countChars t - p"
proof -
  let ?cs = "map fst (snd (analyzeLine_traced cfg rule t info p st h))"
  have d: "distinct ?cs"
    using analyzeLine_traced_sorted [of cfg rule t info p st h]
    by (simp add: strict_sorted_iff)
  have "set ?cs \<subseteq> {p ..< countChars t}"
    using analyzeLine_traced_cursors [of cfg rule t info p st h] by auto
  then have "card (set ?cs) \<le> card {p ..< countChars t}"
    by (intro card_mono) auto
  moreover have "card (set ?cs) = length ?cs"
    using d by (rule distinct_card)
  ultimately show ?thesis by simp
qed

subsection \<open>Sub-grammar spans\<close>

lemma localSpan_fields [simp]:
  "goto_state (localSpan cfg rule a b style) = goto_state TokenSpan_default"
  "style_id (localSpan cfg rule a b style) = style"
  "start_column (localSpan cfg rule a b style) = a"
  "end_column (localSpan cfg rule a b style) = b"
  by (simp_all add: localSpan_def Let_def start_column_def end_column_def)

lemma shiftColumns_fields [simp]:
  "goto_state (shiftColumns d s) = goto_state s"
  "style_id (shiftColumns d s) = style_id s"
  "start_column (shiftColumns d s) = start_column s + d"
  "end_column (shiftColumns d s) = end_column s + d"
  by (simp_all add: shiftColumns_def start_column_def end_column_def)

lemma matchAtPosition_sub_spans:
  "sub_spans (matchAtPosition cfg rule t p sr) =
     (if matched (searchAtPosition t p sr) \<and> 0 \<le> token_rule_idx (searchAtPosition t p sr) then
        (case sub_state_rule (token_rules sr ! nat (token_rule_idx (searchAtPosition t p sr))) of
           None \<Rightarrow> []
         | Some sub \<Rightarrow>
             subLoop cfg rule (m_matched_text (searchAtPosition t p sr)) sub
               (m_style (searchAtPosition t p sr)) 0 [])
      else [])"
  by (simp add: matchAtPosition.simps Let_def split: option.splits)

lemma subLoop_done:
  "\<not> sub_pos < countChars t \<Longrightarrow> subLoop cfg rule t sub style sub_pos acc = acc"
  by (subst subLoop.simps) (simp add: Let_def tailGap_def)

lemma subLoop_break:
  "sub_pos < countChars t \<Longrightarrow> \<not> matched (matchAtPosition cfg rule t sub_pos sub)
   \<Longrightarrow> subLoop cfg rule t sub style sub_pos acc
       = acc @ [localSpan cfg rule sub_pos (countChars t) style]"
  by (subst subLoop.simps) (simp add: Let_def tailGap_def)

lemma subLoop_step:
  "sub_pos < countChars t \<Longrightarrow> matched (matchAtPosition cfg rule t sub_pos sub)
   \<Longrightarrow> subLoop cfg rule t sub style sub_pos acc
       = subLoop cfg rule t sub style (nextSubPos (matchAtPosition cfg rule t sub_pos sub))
           (acc @ gapBefore cfg rule style sub_pos (matchAtPosition cfg rule t sub_pos sub)
                @ subMatchContent cfg rule (matchAtPosition cfg rule t sub_pos sub))"
  by (subst subLoop.simps) (simp add: Let_def)

lemma goto_unset_localSpan [simp]: "goto_unset (localSpan cfg rule a b style)"
  by (simp add: goto_unset_def)

lemma goto_unset_shiftColumns [simp]: "goto_unset (shiftColumns d s) = goto_unset s"
  by (simp add: goto_unset_def)


subsection \<open>States outside the grammar, and goto states of emitted spans\<close>

lemma matchAtPositionState_unknown:
  "\<not> containsRule rule st \<Longrightarrow> matchAtPositionState cfg rule t p st = MatchResult_default"
  by (simp add: matchAtPositionState_def)

lemma analyzeLine_traced_unknown:
  assumes "\<not> containsRule rule st"
  shows "analyzeLine_traced cfg rule t info p st h
           = ((h, st), map (\<lambda>c. (c, False)) [p ..< countChars t])"
proof (induction "countChars t - p" arbitrary: p)
  case 0
  then show ?case by (subst analyzeLine_traced.simps) simp
next
  case (Suc n)
  then have lt: "p < countChars t" and n: "n = countChars t - Suc p" by simp_all
  have "analyzeLine_traced cfg rule t info p st h =
      (let (r, tr) = analyzeLine_traced cfg rule t info (Suc p) st h in (r, (p, False) # tr))"
    using lt assms
    by (subst analyzeLine_traced.simps)
       (simp add: matchAtPositionState_unknown MatchResult_default_def)
  with Suc(1) [OF n] lt show ?case
    by (simp add: upt_conv_Cons)
qed

lemma analyzeLine_loop_unknown:
  assumes "\<not> containsRule rule st"
  shows "analyzeLine_loop cfg rule t info p st h = (h, st)"
  using analyzeLine_traced_result [of cfg rule t info p st h]
  by (simp add: analyzeLine_traced_unknown [OF assms])


lemma goto_state_emitSubSpan [simp]: "goto_unset (emitSubSpan info st mr s) = goto_unset s"
  by (simp add: emitSubSpan_def goto_unset_def Let_def)

lemma goto_state_emitWholeSpan [simp]:
  "goto_state (emitWholeSpan cfg rule info st mr) = m_goto_state mr"
  by (simp add: emitWholeSpan_def Let_def)

lemma goto_state_emitGroupSpan [simp]:
  "goto_state (emitGroupSpan cfg rule info st mr g) = m_goto_state mr"
  by (simp add: emitGroupSpan_def Let_def)

subsection \<open>Substrings\<close>

lemma countChars_append: "countChars (xs @ ys) = countChars xs + countChars ys"
  by (simp add: countChars_def)

lemma charPosToBytePos_mono: "n \<le> m \<Longrightarrow> charPosToBytePos t n \<le> charPosToBytePos t m"
proof (induction t n arbitrary: m rule: charPosToBytePos.induct)
  case (1 n)
  then show ?case by simp
next
  case (2 c cs n)
  then show ?case by (cases n; cases m) auto
qed

lemma countChars_utf8Substr:
  assumes "s + l \<le> countChars t"
  shows "countChars (utf8Substr t s l) = l"
proof -
  let ?b = "charPosToBytePos t s" and ?e = "charPosToBytePos t (s + l)"
  have le: "?b \<le> ?e" by (rule charPosToBytePos_mono) simp
  have "take ?e t = take ?b t @ take (?e - ?b) (drop ?b t)"
    using le by (metis le_add_diff_inverse take_add)
  then have "countChars (take ?e t) = countChars (take ?b t) + countChars (utf8Substr t s l)"
    by (simp add: utf8Substr_def flip: countChars_append)
  moreover have "countChars (take ?e t) = s + l"
    using assms bytePosToCharPos_charPosToBytePos [of t "s + l"]
    by (simp add: bytePosToCharPos_def)
  moreover have "countChars (take ?b t) = s"
    using assms bytePosToCharPos_charPosToBytePos [of t s]
    by (simp add: bytePosToCharPos_def)
  ultimately show ?thesis by simp
qed

lemma searchAtPosition_matched_text_chars:
  assumes "matched (searchAtPosition t p sr)"
  shows "countChars (m_matched_text (searchAtPosition t p sr)) = m_length (searchAtPosition t p sr)"
proof -
  from assms obtain region where
    s: "onig_search (regex sr) t (charPosToBytePos t p) = Some region"
    and lt: "nat (region_beg region 0) < nat (region_end region 0)"
    and st: "m_start (searchAtPosition t p sr) = bytePosToCharPos t (nat (region_beg region 0))"
    and ln: "m_length (searchAtPosition t p sr) =
       bytePosToCharPos t (nat (region_end region 0)) - bytePosToCharPos t (nat (region_beg region 0))"
    and tx: "m_matched_text (searchAtPosition t p sr) =
       utf8Substr t (m_start (searchAtPosition t p sr)) (m_length (searchAtPosition t p sr))"
    by (rule searchAtPosition_matchedE)
  have "nat (region_beg region 0) \<le> nat (region_end region 0)" using lt by linarith
  then have "bytePosToCharPos t (nat (region_beg region 0))
      \<le> bytePosToCharPos t (nat (region_end region 0))"
    by (rule bytePosToCharPos_mono)
  then have "m_start (searchAtPosition t p sr) + m_length (searchAtPosition t p sr)
      = bytePosToCharPos t (nat (region_end region 0))"
    by (simp add: st ln)
  then have "m_start (searchAtPosition t p sr) + m_length (searchAtPosition t p sr) \<le> countChars t"
    by (simp add: bytePosToCharPos_le)
  then show ?thesis
    by (subst tx) (rule countChars_utf8Substr)
qed

subsection \<open>Tiling of a match by its sub-spans\<close>

lemma tiles_append: "tiles a xs b \<Longrightarrow> tiles b ys c \<Longrightarrow> tiles a (xs @ ys) c"
  by (induction xs arbitrary: a) auto

lemma tiles_shift: "tiles a xs b \<Longrightarrow> tiles (a + d) (map (shiftColumns d) xs) (b + d)"
  by (induction xs arbitrary: a) auto

lemma tiles_le: "tiles a xs b \<Longrightarrow> a \<le> b"
  by (induction xs arbitrary: a) (auto dest: order.strict_implies_order order_trans)

lemma tiles_nonempty: "tiles a xs b \<Longrightarrow> a < b \<Longrightarrow> xs \<noteq> []"
  by auto

lemma no_bare_groups_rule:
  assumes "no_bare_groups sr" and "i < length (token_rules sr)"
  shows "sub_state_rule (token_rules sr ! i) = None \<Longrightarrow> group_count (token_rules sr ! i) = 0"
    and "sub_state_rule (token_rules sr ! i) = Some sub \<Longrightarrow> no_bare_groups sub"
  using assms by (subst (asm) no_bare_groups.simps; force simp: list_all_iff)+

lemma collectGroups_none:
  "group_count token_rule = 0 \<Longrightarrow> collectGroups token_rule region t sb eb = []"
  by (simp add: collectGroups_def)

lemma searchAtPosition_no_bare_groups:
  assumes "no_bare_groups sr" and "winner_sub sr (searchAtPosition t p sr) = None"
  shows "capture_groups (searchAtPosition t p sr) = []"
proof (cases "matched (searchAtPosition t p sr) \<and> 0 \<le> token_rule_idx (searchAtPosition t p sr)")
  case False
  then show ?thesis
    by (auto simp: searchAtPosition_def findMatchedRuleAndGroup_def MatchResult_default_def Let_def
        split: option.splits if_splits)
next
  case True
  let ?r = "searchAtPosition t p sr"
  from True assms(2) have n: "sub_state_rule (token_rules sr ! nat (token_rule_idx ?r)) = None"
    by (simp add: winner_sub_def)
  from True have i: "nat (token_rule_idx ?r) < length (token_rules sr)"
    using searchAtPosition_idx by simp
  have g: "group_count (token_rules sr ! nat (token_rule_idx ?r)) = 0"
    using no_bare_groups_rule(1) [OF assms(1) i n] .
  have "collectGroups tr region t sb eb = []"
    if "findRule (token_rules sr) 0 region sb eb = Some (idx, tr)"
      and "token_rule_idx ?r = int idx" for region sb eb idx tr
  proof -
    from findRule_Some [OF that(1)] have "token_rules sr ! idx = tr" by simp
    with g that(2) show ?thesis by (simp add: collectGroups_none)
  qed
  then show ?thesis
    by (auto simp: searchAtPosition_def findMatchedRuleAndGroup_def MatchResult_default_def Let_def
        split: option.splits if_splits)
qed


lemma winner_sub_no_bare_groups:
  assumes "no_bare_groups sr" and "winner_sub sr (searchAtPosition t p sr) = Some sub"
  shows "no_bare_groups sub"
proof -
  from assms(2) have i: "0 \<le> token_rule_idx (searchAtPosition t p sr)"
    and s: "sub_state_rule (token_rules sr ! nat (token_rule_idx (searchAtPosition t p sr))) = Some sub"
    by (simp_all add: winner_sub_def split: if_splits)
  from no_bare_groups_rule(2) [OF assms(1) searchAtPosition_idx [OF i] s] show ?thesis .
qed

lemma matchAtPosition_sub_spans_winner:
  "sub_spans (matchAtPosition cfg rule t p sr) =
     (case winner_sub sr (searchAtPosition t p sr) of None \<Rightarrow> []
      | Some sub \<Rightarrow> subLoop cfg rule (m_matched_text (searchAtPosition t p sr)) sub
           (m_style (searchAtPosition t p sr)) 0 [])"
  by (simp add: matchAtPosition_sub_spans winner_sub_def)

lemma subMatchContent_nonempty: "subMatchContent cfg rule r \<noteq> []"
  by (simp add: subMatchContent_def)

lemma subLoop_nonempty:
  shows "sub_spans (matchAtPosition cfg rule t p sr) = sub_spans (matchAtPosition cfg rule t p sr)"
  and "acc \<noteq> [] \<or> sub_pos < countChars t \<longrightarrow> subLoop cfg rule t sub style sub_pos acc \<noteq> []"
proof (induction cfg rule t p sr and cfg rule t sub style sub_pos acc
    rule: matchAtPosition_subLoop.induct)
  case (1 cfg rule t p sr)
  show ?case by simp
next
  case (2 cfg rule t sub style sub_pos acc)
  let ?res = "matchAtPosition cfg rule t sub_pos sub"
  show ?case
  proof (cases "sub_pos < countChars t")
    case False
    then show ?thesis by (simp add: subLoop_done)
  next
    case True
    show ?thesis
    proof (cases "matched ?res")
      case False
      with True show ?thesis by (simp add: subLoop_break)
    next
      case m: True
      have m': "\<not> \<not> matched ?res" using m by simp
      show ?thesis
        using 2(2) [OF refl True refl m'] subMatchContent_nonempty [of cfg rule ?res]
        by (simp add: subLoop_step [OF True m])
    qed
  qed
qed

lemma sub_spans_nonempty:
  assumes "winner_sub sr (searchAtPosition t p sr) = Some sub"
  shows "sub_spans (matchAtPosition cfg rule t p sr) \<noteq> []"
proof -
  let ?r = "searchAtPosition t p sr"
  from assms have m: "matched ?r" by (simp add: winner_sub_def split: if_splits)
  then have "0 < countChars (m_matched_text ?r)"
    using searchAtPosition_positive [OF m] by (simp add: searchAtPosition_matched_text_chars)
  then show ?thesis
    using subLoop_nonempty(2) [of "[]" 0 "m_matched_text ?r" cfg rule sub "m_style ?r"] assms
    by (simp add: matchAtPosition_sub_spans_winner)
qed

lemma sub_spans_tile:
  shows "(\<forall>sub. winner_sub sr (searchAtPosition t p sr) = Some sub \<longrightarrow> no_bare_groups sub) \<longrightarrow>
         (\<forall>sub. winner_sub sr (searchAtPosition t p sr) = Some sub \<longrightarrow>
            tiles 0 (sub_spans (matchAtPosition cfg rule t p sr))
              (m_length (searchAtPosition t p sr)))"
  and "no_bare_groups sub \<longrightarrow> sub_pos \<le> countChars t \<longrightarrow> tiles 0 acc sub_pos \<longrightarrow>
         tiles 0 (subLoop cfg rule t sub style sub_pos acc) (countChars t)"
proof (induction cfg rule t p sr and cfg rule t sub style sub_pos acc
    rule: matchAtPosition_subLoop.induct)
  case (1 cfg rule t p sr)
  let ?r = "searchAtPosition t p sr"
  show ?case
  proof (intro impI allI)
    fix sub
    assume ng: "\<forall>sub. winner_sub sr ?r = Some sub \<longrightarrow> no_bare_groups sub"
      and w: "winner_sub sr ?r = Some sub"
    from w have m: "matched ?r \<and> 0 \<le> token_rule_idx ?r"
      and s: "sub_state_rule (token_rules sr ! nat (token_rule_idx ?r)) = Some sub"
      by (simp_all add: winner_sub_def split: if_splits)
    from ng w have "no_bare_groups sub" by simp
    with 1 [OF refl m s]
    have "tiles 0 (subLoop cfg rule (m_matched_text ?r) sub (m_style ?r) 0 [])
        (countChars (m_matched_text ?r))"
      by simp
    then show "tiles 0 (sub_spans (matchAtPosition cfg rule t p sr)) (m_length ?r)"
      using m w by (simp add: matchAtPosition_sub_spans_winner searchAtPosition_matched_text_chars)
  qed
next
  case (2 cfg rule t sub style sub_pos acc)
  let ?res = "matchAtPosition cfg rule t sub_pos sub"
  let ?r = "searchAtPosition t sub_pos sub"
  show ?case
  proof (intro impI)
    assume ng: "no_bare_groups sub" and le: "sub_pos \<le> countChars t" and acc: "tiles 0 acc sub_pos"
    show "tiles 0 (subLoop cfg rule t sub style sub_pos acc) (countChars t)"
    proof (cases "sub_pos < countChars t")
      case False
      with le acc show ?thesis by (simp add: subLoop_done)
    next
      case True
      show ?thesis
      proof (cases "matched ?res")
        case False
        have "tiles sub_pos [localSpan cfg rule sub_pos (countChars t) style] (countChars t)"
          using True by simp
        with acc have "tiles 0 (acc @ [localSpan cfg rule sub_pos (countChars t) style])
            (countChars t)"
          by (rule tiles_append)
        with True False show ?thesis by (simp add: subLoop_break)
      next
        case m: True
        then have mr: "matched ?r" by (simp add: matchAtPosition_fields)
        have st: "sub_pos \<le> m_start ?r" and en: "m_start ?r + m_length ?r \<le> countChars t"
          using searchAtPosition_progress [OF mr True] by simp_all
        have pos: "0 < m_length ?r" using mr by (rule searchAtPosition_positive)
        have gap: "tiles sub_pos (gapBefore cfg rule style sub_pos ?res) (m_start ?r)"
          using st by (auto simp: gapBefore_def matchAtPosition_fields)
        have content: "tiles (m_start ?r) (subMatchContent cfg rule ?res) (m_start ?r + m_length ?r)"
        proof (cases "winner_sub sub ?r")
          case None
          then have "sub_spans ?res = []"
            by (simp add: matchAtPosition_sub_spans_winner)
          then show ?thesis
            using pos searchAtPosition_no_bare_groups [OF ng None]
            by (simp add: subMatchContent_def matchAtPosition_fields)
        next
          case (Some sub2)
          have "\<forall>s. winner_sub sub ?r = Some s \<longrightarrow> no_bare_groups s"
            using winner_sub_no_bare_groups [OF ng] by blast
          with 2(1) [OF refl True] Some
          have t0: "tiles 0 (sub_spans ?res) (m_length ?r)" by blast
          then have "sub_spans ?res \<noteq> []" using pos by (rule tiles_nonempty)
          with tiles_shift [OF t0, of "m_start ?r"] show ?thesis
            by (simp add: subMatchContent_def matchAtPosition_fields add.commute)
        qed
        have "tiles 0 (acc @ gapBefore cfg rule style sub_pos ?res @ subMatchContent cfg rule ?res)
            (m_start ?r + m_length ?r)"
          by (intro tiles_append [OF acc] tiles_append [OF gap] content)
        moreover have nx: "nextSubPos ?res = m_start ?r + m_length ?r"
          using pos by (simp add: nextSubPos_def matchAtPosition_fields)
        moreover have m': "\<not> \<not> matched ?res" using m by simp
        ultimately show ?thesis
          using 2(2) [OF refl True refl m'] ng en by (simp add: subLoop_step [OF True m])
      qed
    qed
  qed
qed

lemma start_column_emitSubSpan [simp]:
  "start_column (emitSubSpan info st mr s) = start_column s + m_start mr"
  "end_column (emitSubSpan info st mr s) = end_column s + m_start mr"
  "style_id (emitSubSpan info st mr s) = style_id s"
  "state (emitSubSpan info st mr s) = st"
  by (simp_all add: emitSubSpan_def Let_def start_column_def end_column_def position_def)

lemma tiles_emit:
  "tiles a xs b \<Longrightarrow> tiles (a + m_start mr) (map (emitSubSpan info st mr) xs) (b + m_start mr)"
  by (induction xs arbitrary: a) auto

lemma searchAtPosition_winner:
  assumes "0 \<le> token_rule_idx (searchAtPosition t p sr)"
  shows "m_style (searchAtPosition t p sr)
      = getGroupStyleId (token_rules sr ! nat (token_rule_idx (searchAtPosition t p sr))) 0"
    and "m_goto_state (searchAtPosition t p sr)
      = rule_goto_state (token_rules sr ! nat (token_rule_idx (searchAtPosition t p sr)))"
proof -
  let ?r = "searchAtPosition t p sr"
  from assms obtain region sb eb idx tr where
    f: "findRule (token_rules sr) 0 region sb eb = Some (idx, tr)"
    and r: "token_rule_idx ?r = int idx" "m_style ?r = getGroupStyleId tr 0"
      "m_goto_state ?r = rule_goto_state tr"
    by (fastforce simp: searchAtPosition_def findMatchedRuleAndGroup_def Let_def
        MatchResult_default_def split: option.splits if_splits)
  from findRule_Some [OF f] have "token_rules sr ! idx = tr" by simp
  with r show "m_style ?r = getGroupStyleId (token_rules sr ! nat (token_rule_idx ?r)) 0"
    and "m_goto_state ?r = rule_goto_state (token_rules sr ! nat (token_rule_idx ?r))"
    by simp_all
qed

subsection \<open>The text analyzer\<close>

lemma find_newline_count_Some:
  assumes "find_newline t start = Some e"
  shows "count_list (drop start t) newline = Suc (count_list (drop (Suc e) t) newline)"
proof -
  let ?d = "drop start t" and ?k = "length (takeWhile (\<lambda>c. c \<noteq> newline) (drop start t))"
  from assms have e: "e = start + ?k" and lt: "?k < length ?d"
    by (auto simp: find_newline_def Let_def split: if_splits)
  have nl: "?d ! ?k = newline"
    using lt nth_length_takeWhile [of "\<lambda>c. c \<noteq> newline" ?d] by auto
  have "?d = takeWhile (\<lambda>c. c \<noteq> newline) ?d @ newline # drop (Suc ?k) ?d"
    using lt nl
    by (metis Cons_nth_drop_Suc dropWhile_eq_drop takeWhile_dropWhile_id)
  then have "count_list ?d newline
      = count_list (takeWhile (\<lambda>c. c \<noteq> newline) ?d @ newline # drop (Suc ?k) ?d) newline"
    by simp
  also have "\<dots> = Suc (count_list (drop (Suc ?k) ?d) newline)"
    by (auto simp: count_list_0_iff dest: set_takeWhileD)
  finally show ?thesis
    by (simp add: e add.commute)
qed

lemma find_newline_count_None:
  assumes "find_newline t start = None"
  shows "count_list (drop start t) newline = 0"
proof -
  let ?d = "drop start t"
  from assms have "length ?d \<le> length (takeWhile (\<lambda>c. c \<noteq> newline) ?d)"
    by (auto simp: find_newline_def Let_def split: if_splits)
  then have "takeWhile (\<lambda>c. c \<noteq> newline) ?d = ?d"
    by (metis length_takeWhile_le le_antisym takeWhile_eq_take take_all order_refl)
  then have "newline \<notin> set ?d"
    by (metis set_takeWhileD)
  then show ?thesis by (simp add: count_list_0_iff)
qed

lemma analyzeText_loop_length:
  "length (lines (analyzeText_loop cfg rule t line_info start h))
     = length (lines h) + Suc (count_list (drop start t) newline)"
proof (induction cfg rule t line_info start h rule: analyzeText_loop.induct)
  case (1 cfg rule t line_info start h)
  show ?case
  proof (cases "find_newline t start")
    case None
    then show ?thesis
      by (subst analyzeText_loop.simps)
         (simp add: find_newline_count_None addLine_def split: prod.splits)
  next
    case (Some e)
    obtain b l where sc: "strip_cr (take (e - start) (drop start t)) = (b, l)"
      by (cases "strip_cr (take (e - start) (drop start t))")
    show ?thesis
      using 1 [OF Some refl refl sc [symmetric] refl refl refl] find_newline_count_Some [OF Some]
      by (subst analyzeText_loop.simps) (simp add: Some sc addLine_def Let_def)
  qed
qed

lemma char_count_analyzeLine [simp]: "char_count (analyzeLine cfg rule t info) = countChars t"
  by (simp add: analyzeLine_def LineAnalyzeResult_default_def Let_def split: prod.splits)

lemma analyzeText_loop_last_empty:
  "t \<noteq> [] \<Longrightarrow> last t = newline \<Longrightarrow> start \<le> length t
   \<Longrightarrow> last (lines (analyzeText_loop cfg rule t line_info start h)) = LineHighlight_empty"
proof (induction cfg rule t line_info start h rule: analyzeText_loop.induct)
  case (1 cfg rule t line_info start h)
  show ?case
  proof (cases "find_newline t start")
    case None
    have "drop start t = []"
    proof (rule ccontr)
      assume ne: "drop start t \<noteq> []"
      then have "last (drop start t) = newline"
        using "1.prems" by (simp add: last_drop)
      then have "newline \<in> set (drop start t)"
        using ne last_in_set by metis
      then have "count_list (drop start t) newline \<noteq> 0"
        by (simp add: count_list_0_iff)
      with find_newline_count_None [OF None] show False by simp
    qed
    with None show ?thesis
      by (subst analyzeText_loop.simps)
         (simp add: strip_cr_def addLine_def analyzeLine_def LineAnalyzeResult_default_def)
  next
    case (Some e)
    obtain b l where sc: "strip_cr (take (e - start) (drop start t)) = (b, l)"
      by (cases "strip_cr (take (e - start) (drop start t))")
    have "e + 1 \<le> length t" using find_newline_Some [OF Some] by simp
    from 1(1) [OF Some refl refl sc [symmetric] refl refl refl "1.prems"(1,2) this]
    show ?thesis
      by (subst analyzeText_loop.simps) (simp add: Some sc Let_def)
  qed
qed

lemma find_newline_segment:
  assumes "newline \<notin> set l"
  shows "find_newline (pre @ l @ newline # rest) (length pre) = Some (length pre + length l)"
proof -
  have "takeWhile (\<lambda>c. c \<noteq> newline) (l @ newline # rest) = l"
    using assms by (induction l) auto
  then show ?thesis
    by (simp add: find_newline_def)
qed

lemma analyzeText_loop_step:
  assumes "newline \<notin> set raw" and "strip_cr raw = (has_cr, stripped)"
  shows "analyzeText_loop cfg rule (pre @ raw @ newline # rest) line_info (length pre) h
    = analyzeText_loop cfg rule (pre @ raw @ newline # rest)
        (line_info\<lparr>info_line := info_line line_info + 1,
           start_state := end_state (analyzeLine cfg rule stripped line_info),
           start_char_offset := start_char_offset line_info + countChars stripped
              + (if has_cr then 1 else 0) + 1\<rparr>)
        (length pre + length raw + 1)
        (addLine h (highlight (analyzeLine cfg rule stripped line_info)))"
  by (subst analyzeText_loop.simps)
     (simp add: find_newline_segment [OF assms(1)] assms(2) Let_def)

lemma snd_strip_cr:
  "snd (strip_cr l) = (if l \<noteq> [] \<and> last l = carriage_return then butlast l else l)"
  by (simp add: strip_cr_def)

lemma find_newline_final:
  assumes "newline \<notin> set fin"
  shows "find_newline (pre @ fin) (length pre) = None"
proof -
  have "length (takeWhile (\<lambda>c. c \<noteq> newline) fin) = length fin"
    using assms by (induction fin) auto
  then show ?thesis by (simp add: find_newline_def Let_def)
qed

lemma analyzeText_loop_final:
  assumes "newline \<notin> set fin"
  shows "analyzeText_loop cfg rule (pre @ fin) line_info (length pre) h
    = addLine h (highlight (analyzeLine cfg rule (snd (strip_cr fin)) line_info))"
  by (subst analyzeText_loop.simps)
     (simp add: find_newline_final [OF assms] split: prod.splits)

lemma find_newline_nth:
  assumes "find_newline t start = Some e"
  shows "t ! e = newline"
proof -
  let ?d = "drop start t" and ?k = "length (takeWhile (\<lambda>c. c \<noteq> newline) (drop start t))"
  from assms have e: "e = start + ?k" and lt: "?k < length ?d"
    by (auto simp: find_newline_def Let_def split: if_splits)
  have "?d ! ?k = newline"
    using lt nth_length_takeWhile [of "\<lambda>c. c \<noteq> newline" ?d] by auto
  then show ?thesis using lt by (simp add: e)
qed

lemma find_newline_take:
  assumes "find_newline t start = Some e"
  shows "newline \<notin> set (take (e - start) (drop start t))"
proof -
  let ?d = "drop start t"
  from assms have e: "e - start = length (takeWhile (\<lambda>c. c \<noteq> newline) ?d)"
    by (auto simp: find_newline_def Let_def split: if_splits)
  have "take (e - start) ?d = takeWhile (\<lambda>c. c \<noteq> newline) ?d"
    unfolding e by (rule takeWhile_eq_take [symmetric])
  then show ?thesis by (auto dest: set_takeWhileD)
qed

lemma countChars_strip_cr:
  "strip_cr raw = (has_cr, stripped)
   \<Longrightarrow> countChars raw = countChars stripped + (if has_cr then 1 else 0)"
proof -
  assume a: "strip_cr raw = (has_cr, stripped)"
  show ?thesis
  proof (cases "raw \<noteq> [] \<and> last raw = carriage_return")
    case True
    then have "raw = butlast raw @ [carriage_return]"
      by (metis append_butlast_last_id)
    moreover have "countChars (butlast raw @ [carriage_return]) = countChars (butlast raw) + 1"
      by (simp add: countChars_def is_continuation_def carriage_return_def)
    ultimately have "countChars raw = countChars (butlast raw) + 1"
      by simp
    with a True show ?thesis by (auto simp: strip_cr_def)
  next
    case False
    with a show ?thesis by (auto simp: strip_cr_def)
  qed
qed


lemma countChars_newline [simp]: "countChars (newline # xs) = Suc (countChars xs)"
  by (simp add: countChars_def is_continuation_def newline_def)

lemma analyzeText_loop_last:
  assumes "t = pre @ fin" and "newline \<notin> set fin" and "start \<le> length pre"
    and "pre = [] \<or> last pre = newline"
  shows "\<exists>info. info_line info = info_line line_info + count_list (drop start pre) newline
      \<and> start_char_offset info = start_char_offset line_info + countChars (drop start pre)
      \<and> last (lines (analyzeText_loop cfg rule t line_info start h))
          = highlight (analyzeLine cfg rule (snd (strip_cr fin)) info)"
  using assms
proof (induction cfg rule t line_info start h rule: analyzeText_loop.induct)
  case (1 cfg rule t line_info start h)
  note t = "1.prems"(1) and fin = "1.prems"(2) and le = "1.prems"(3) and pre = "1.prems"(4)
  have dt: "drop start t = drop start pre @ fin"
    using t le by simp
  show ?case
  proof (cases "find_newline t start")
    case None
    have "newline \<notin> set (drop start t)"
      using find_newline_count_None [OF None] by (simp add: count_list_0_iff)
    then have n: "newline \<notin> set (drop start pre)"
      by (simp add: dt)
    have "drop start pre = []"
    proof (rule ccontr)
      assume ne: "drop start pre \<noteq> []"
      then have "pre \<noteq> []" by auto
      with pre have "last pre = newline" by simp
      with ne have "last (drop start pre) = newline" by (simp add: last_drop)
      with ne n show False using last_in_set by metis
    qed
    with le have st: "start = length pre" by simp
    have "analyzeText_loop cfg rule t line_info start h
        = addLine h (highlight (analyzeLine cfg rule (snd (strip_cr fin)) line_info))"
      unfolding t st by (rule analyzeText_loop_final [OF fin])
    then show ?thesis
      using \<open>drop start pre = []\<close> by (intro exI [of _ line_info]) (simp add: addLine_def)
  next
    case (Some e)
    let ?raw = "take (e - start) (drop start t)"
    obtain b l where sc: "strip_cr ?raw = (b, l)"
      by (cases "strip_cr ?raw")
    have se: "start \<le> e" and et: "e < length t"
      using find_newline_Some [OF Some] by simp_all
    have nl: "t ! e = newline" using Some by (rule find_newline_nth)
    have ep: "e < length pre"
    proof (rule ccontr)
      assume "\<not> e < length pre"
      then have "t ! e = fin ! (e - length pre)" and "e - length pre < length fin"
        using et by (simp_all add: t nth_append)
      with nl fin show False by (metis nth_mem)
    qed
    have raw: "?raw = take (e - start) (drop start pre)"
      using ep se by (simp add: dt)
    have pe: "pre ! e = newline" using nl ep by (simp add: t nth_append)
    have "drop start pre = take (e - start) (drop start pre) @ drop (e - start) (drop start pre)"
      by (rule append_take_drop_id [symmetric])
    also have "drop (e - start) (drop start pre) = drop e pre"
      using se by simp
    also have "drop e pre = newline # drop (Suc e) pre"
      using ep pe by (metis Cons_nth_drop_Suc)
    finally have dp: "drop start pre = ?raw @ newline # drop (Suc e) pre"
      by (simp add: raw)
    have nr: "newline \<notin> set ?raw" using Some by (rule find_newline_take)
    have cnt: "count_list (drop start pre) newline = Suc (count_list (drop (Suc e) pre) newline)"
      using nr by (simp add: dp count_list_0_iff)
    have chr: "countChars (drop start pre)
        = countChars l + (if b then 1 else 0) + 1 + countChars (drop (Suc e) pre)"
      using countChars_strip_cr [OF sc] by (simp add: dp countChars_append)
    have le': "e + 1 \<le> length pre" using ep by simp
    from 1(1) [OF Some refl refl sc [symmetric] refl refl refl t fin le' pre]
    obtain info where
      i1: "info_line info = info_line line_info + 1 + count_list (drop (e + 1) pre) newline"
      and i2: "start_char_offset info = start_char_offset line_info + countChars l
          + (if b then 1 else 0) + 1 + countChars (drop (e + 1) pre)"
      and i3: "last (lines (analyzeText_loop cfg rule t
            (line_info\<lparr>info_line := info_line line_info + 1,
               start_state := end_state (analyzeLine cfg rule l line_info),
               start_char_offset := start_char_offset line_info
                 + char_count (analyzeLine cfg rule l line_info) + (if b then 1 else 0) + 1\<rparr>)
            (e + 1) (addLine h (highlight (analyzeLine cfg rule l line_info)))))
          = highlight (analyzeLine cfg rule (snd (strip_cr fin)) info)"
      by auto
    have "analyzeText_loop cfg rule t line_info start h
        = analyzeText_loop cfg rule t
            (line_info\<lparr>info_line := info_line line_info + 1,
               start_state := end_state (analyzeLine cfg rule l line_info),
               start_char_offset := start_char_offset line_info
                 + char_count (analyzeLine cfg rule l line_info) + (if b then 1 else 0) + 1\<rparr>)
            (e + 1) (addLine h (highlight (analyzeLine cfg rule l line_info)))"
      by (subst analyzeText_loop.simps) (simp add: Some sc Let_def)
    with i1 i2 i3 cnt chr show ?thesis
      by (intro exI [of _ info]) simp
  qed
qed

lemma analyzeText_last_line:
  assumes "newline \<notin> set fin"
  shows "\<exists>info. info_line info = Suc (count_list pre newline)
      \<and> start_char_offset info = countChars (pre @ [newline])
      \<and> last (lines (analyzeText cfg rule (pre @ newline # fin)))
          = highlight (analyzeLine cfg rule (snd (strip_cr fin)) info)"
  using analyzeText_loop_last [of "pre @ newline # fin" "pre @ [newline]" fin 0
      "\<lparr>info_line = 0, start_state = kDefaultStateId, start_char_offset = 0\<rparr>" cfg rule
      "\<lparr>lines = []\<rparr>"] assms
  by (simp add: analyzeText_def)

lemma analyzeText_single_line:
  assumes "newline \<notin> set t" and "t \<noteq> []"
  shows "lines (analyzeText cfg rule t)
    = [highlight (analyzeLine cfg rule (snd (strip_cr t))
         \<lparr>info_line = 0, start_state = kDefaultStateId, start_char_offset = 0\<rparr>)]"
  using analyzeText_loop_final [OF assms(1), of cfg rule "[]"] assms(2)
  by (simp add: analyzeText_def addLine_def)

subsection \<open>The incremental loop\<close>

lemma LineHighlight_eq_iff:
  "LineHighlight_eq a b \<longleftrightarrow>
     list_all2 (\<lambda>x y. span_range x = span_range y \<and> style_id x = style_id y
                  \<and> state x = state y \<and> goto_state x = goto_state y) (spans a) (spans b)"
proof -
  have "TokenSpan_eq = (\<lambda>x y. span_range x = span_range y \<and> style_id x = style_id y
                  \<and> state x = state y \<and> goto_state x = goto_state y)"
    by (intro ext) (simp add: TokenSpan_eq_def)
  then show ?thesis
    by (auto simp: LineHighlight_eq_def dest: list_all2_lengthD)
qed

lemma retokenize_loop_stable:
  "retokenize_loop cfg rule d cel ln True st lsi S ls = Done (ln, lsi, S, ls)"
  by (subst retokenize_loop.simps) simp

lemma retokenize_loop_end:
  "\<not> ln < getLineCount d \<Longrightarrow> retokenize_loop cfg rule d cel ln b st lsi S ls = Done (ln, lsi, S, ls)"
  by (subst retokenize_loop.simps) simp

lemma retokenize_loop_step:
  assumes "ln < getLineCount d" and "ln < length S" and "ln < length ls"
  shows "retokenize_loop cfg rule d cel ln False st lsi S ls =
     (let result = analyzeLine cfg rule (line_text (getLine d ln))
                     \<lparr>info_line = ln, start_state = st, start_char_offset = lsi\<rparr>
      in retokenize_loop cfg rule d cel (Suc ln)
           (beyond_change ln cel \<and> S ! ln = end_state result
              \<and> LineHighlight_eq (ls ! ln) (highlight result))
           (end_state result)
           (lsi + char_count result + getLineEndingWidth (ending (getLine d ln)))
           (S[ln := end_state result]) (ls[ln := highlight result]))"
proof -
  have flag: "\<And>A C. (if A then if C then True else False else False) = (A \<and> C)"
    by simp
  show ?thesis
    using assms by (subst retokenize_loop.simps) (simp add: Let_def flag del: if_True if_False cong: if_cong)
qed

lemma retokenize_loop_out_of_bounds:
  "ln < getLineCount d \<Longrightarrow> \<not> (ln < length S \<and> ln < length ls)
   \<Longrightarrow> retokenize_loop cfg rule d cel ln False st lsi S ls = OutOfBounds"
  by (subst retokenize_loop.simps) auto

lemma erase_range_nth:
  assumes "f \<le> l" and "l \<le> length xs" and "f \<le> n"
  shows "erase_range xs f l ! n = xs ! (l + (n - f))"
proof -
  have "length (take f xs) = f" using assms by simp
  then have "erase_range xs f l ! n = drop l xs ! (n - f)"
    using assms(3) by (simp add: erase_range_def nth_append)
  then show ?thesis using assms(2) by simp
qed

lemma insert_n_nth:
  assumes "p \<le> length xs" and "p + k \<le> n"
  shows "insert_n xs p k v ! n = xs ! (p + (n - p - k))"
proof -
  have l: "length (take p xs) = p" using assms by simp
  have "insert_n xs p k v ! n = (replicate k v @ drop p xs) ! (n - p)"
    using assms(2) l by (simp add: insert_n_def nth_append)
  also have "\<dots> = drop p xs ! (n - p - k)"
  proof -
    have "\<not> n - p < k" using assms(2) by linarith
    then show ?thesis by (simp add: nth_append)
  qed
  finally show ?thesis using assms(1) by simp
qed

lemma resizeVectors_beyond:
  assumes "resizeVectors S ls end_line line_change = Done (S', ls')"
    and "int end_line + line_change < int ln" and "ln < length S'" and "ln < length ls'"
  shows "S' ! ln = S ! nat (int ln - line_change) \<and> ls' ! ln = ls ! nat (int ln - line_change)"
proof (cases "line_change < 0")
  case True
  with assms(1) have b: "0 \<le> int end_line + line_change + 1" "end_line + 1 \<le> length S"
      "end_line + 1 \<le> length ls"
    and S': "S' = erase_range S (nat (int end_line + line_change + 1)) (end_line + 1)"
    and ls': "ls' = erase_range ls (nat (int end_line + line_change + 1)) (end_line + 1)"
    by (auto simp: resizeVectors_def split: if_splits)
  let ?f = "nat (int end_line + line_change + 1)"
  have f: "?f \<le> end_line + 1" "?f \<le> ln" using True b assms(2) by linarith+
  have idx: "end_line + 1 + (ln - ?f) = nat (int ln - line_change)"
    using True b assms(2) by linarith
  have "S' ! ln = S ! (end_line + 1 + (ln - ?f))"
    unfolding S' using f(1) b(2) f(2) by (rule erase_range_nth)
  then have 1: "S' ! ln = S ! nat (int ln - line_change)" by (simp only: idx)
  have "ls' ! ln = ls ! (end_line + 1 + (ln - ?f))"
    unfolding ls' using f(1) b(3) f(2) by (rule erase_range_nth)
  then have "ls' ! ln = ls ! nat (int ln - line_change)" by (simp only: idx)
  with 1 show ?thesis by simp
next
  case False
  show ?thesis
  proof (cases "line_change > 0")
    case True
    with assms(1) have b: "end_line + 1 \<le> length S" "end_line + 1 \<le> length ls"
      and S': "S' = insert_n S (end_line + 1) (nat line_change) 0"
      and ls': "ls' = insert_n ls (end_line + 1) (nat line_change) LineHighlight_empty"
      by (auto simp: resizeVectors_def split: if_splits)
    have ge: "end_line + 1 + nat line_change \<le> ln" using True assms(2) by linarith
    have idx: "end_line + 1 + (ln - (end_line + 1) - nat line_change) = nat (int ln - line_change)"
      using True assms(2) by linarith
    have "S' ! ln = S ! (end_line + 1 + (ln - (end_line + 1) - nat line_change))"
      unfolding S' using b(1) ge by (rule insert_n_nth)
    then have 1: "S' ! ln = S ! nat (int ln - line_change)" by (simp only: idx)
    have "ls' ! ln = ls ! (end_line + 1 + (ln - (end_line + 1) - nat line_change))"
      unfolding ls' using b(2) ge by (rule insert_n_nth)
    then have "ls' ! ln = ls ! nat (int ln - line_change)" by (simp only: idx)
    with 1 show ?thesis by simp
  next
    case f: False
    with False have "line_change = 0" by simp
    with assms(1) show ?thesis by (simp add: resizeVectors_def)
  qed
qed

subsection \<open>Index consistency\<close>

lemma highlight_index_ok_iff:
  "highlight_index_ok d ls \<longleftrightarrow> (\<forall>i < length ls. line_index_ok (charIndexOfLine d i) (ls ! i))"
  by (auto simp: highlight_index_ok_def list_all_iff)

lemma span_index_ok_extend_end:
  "span_index_ok off l \<Longrightarrow> span_index_ok off s \<Longrightarrow> span_index_ok off (extend_end l s)"
  by (simp add: span_index_ok_def extend_end_def start_index_def end_index_def start_column_def
      end_column_def)

lemma pushOrMergeSpan_index_ok:
  assumes "line_index_ok off h" and "span_index_ok off s"
  shows "line_index_ok off (pushOrMergeSpan h s)"
proof (cases "spans h = []")
  case True
  with assms show ?thesis by (simp add: pushOrMergeSpan_def line_index_ok_def)
next
  case False
  then have sp: "spans h = butlast (spans h) @ [last (spans h)]" by simp
  have l: "span_index_ok off (last (spans h))"
    using assms(1) False by (simp add: line_index_ok_def list_all_iff)
  have b: "list_all (span_index_ok off) (butlast (spans h))"
    using assms(1) by (auto simp: line_index_ok_def list_all_iff dest: in_set_butlastD)
  show ?thesis
    using assms b span_index_ok_extend_end [OF l assms(2)]
    by (simp add: pushOrMergeSpan_def Let_def line_index_ok_def)
qed

lemma foldl_pushOrMergeSpan_index_ok:
  "line_index_ok off h \<Longrightarrow> list_all (span_index_ok off) xs
   \<Longrightarrow> line_index_ok off (foldl pushOrMergeSpan h xs)"
  by (induction xs arbitrary: h) (auto simp: pushOrMergeSpan_index_ok)

lemma emittedSpans_index_ok:
  "list_all (span_index_ok (start_char_offset info)) (emittedSpans cfg rule info st mr)"
  by (simp add: emittedSpans_def list_all_iff span_index_ok_def emitSubSpan_def emitWholeSpan_def
      emitGroupSpan_def Let_def position_def start_index_def end_index_def start_column_def
      end_column_def add.assoc)

lemma analyzeLine_loop_index_ok:
  "line_index_ok (start_char_offset info) h
   \<Longrightarrow> line_index_ok (start_char_offset info) (fst (analyzeLine_loop cfg rule t info p st h))"
proof (induction cfg rule t info p st h rule: analyzeLine_loop.induct)
  case (1 cfg rule t info p st h)
  let ?mr = "matchAtPositionState cfg rule t p st"
  show ?case
  proof (cases "p < countChars t")
    case False
    with 1(3) show ?thesis by (subst analyzeLine_loop.simps) simp
  next
    case True
    show ?thesis
    proof (cases "matched ?mr")
      case False
      with True 1(1) [OF True refl _ 1(3)] show ?thesis
        by (subst analyzeLine_loop.simps) simp
    next
      case m: True
      have "line_index_ok (start_char_offset info) (addLineHighlightResult cfg rule h info st ?mr)"
        unfolding addLineHighlightResult_def
        using 1(3) emittedSpans_index_ok by (rule foldl_pushOrMergeSpan_index_ok)
      with True m 1(2) [OF True refl _ this] show ?thesis
        by (subst analyzeLine_loop.simps) (simp add: Let_def)
    qed
  qed
qed

lemma analyzeLine_index_ok:
  "line_index_ok (start_char_offset info) (highlight (analyzeLine cfg rule t info))"
proof -
  have e: "line_index_ok (start_char_offset info) LineHighlight_empty"
    by (simp add: line_index_ok_def LineHighlight_empty_def)
  show ?thesis
    using analyzeLine_loop_index_ok [OF e, of cfg rule t 0 "start_state info"] e
    by (auto simp: analyzeLine_def LineAnalyzeResult_default_def Let_def split: prod.splits)
qed

lemma charIndexOfLine_Suc:
  "i < getLineCount d \<Longrightarrow> charIndexOfLine d (Suc i) = charIndexOfLine d i + line_width (getLine d i)"
  by (simp add: charIndexOfLine_def getLineCount_def getLine_def take_Suc_conv_app_nth)

lemma highlight_index_ok_snoc:
  "highlight_index_ok d ls \<Longrightarrow> line_index_ok (charIndexOfLine d (length ls)) l
   \<Longrightarrow> highlight_index_ok d (ls @ [l])"
  by (auto simp: highlight_index_ok_iff nth_append less_Suc_eq)

lemma analyzeHighlight_loop_index_ok:
  "line_start_index = charIndexOfLine d line_num \<Longrightarrow> length (lines h) = line_num
   \<Longrightarrow> highlight_index_ok d (lines h)
   \<Longrightarrow> highlight_index_ok d
         (lines (snd (analyzeHighlight_loop cfg rule d line_num current_state line_start_index S h)))
       \<and> length (lines (snd
           (analyzeHighlight_loop cfg rule d line_num current_state line_start_index S h)))
          = max line_num (getLineCount d)"
proof (induction cfg rule d line_num current_state line_start_index S h
    rule: analyzeHighlight_loop.induct)
  case (1 cfg rule d line_num current_state line_start_index S h)
  show ?case
  proof (cases "line_num < getLineCount d")
    case False
    with 1(2-) show ?thesis by (subst (1 2) analyzeHighlight_loop.simps) simp
  next
    case True
    let ?info = "\<lparr>info_line = line_num, start_state = current_state,
        start_char_offset = line_start_index\<rparr>"
    let ?res = "analyzeLine cfg rule (line_text (getLine d line_num)) ?info"
    have ok: "line_index_ok (charIndexOfLine d (length (lines h))) (highlight ?res)"
      using analyzeLine_index_ok [of ?info cfg rule "line_text (getLine d line_num)"] 1(2,3)
      by simp
    have a: "line_start_index + char_count ?res + getLineEndingWidth (ending (getLine d line_num))
        = charIndexOfLine d (Suc line_num)"
      using True 1(2) by (simp add: charIndexOfLine_Suc line_width_def)
    have b: "length (lines (addLine h (highlight ?res))) = Suc line_num"
      using 1(3) by (simp add: addLine_def)
    have c: "highlight_index_ok d (lines (addLine h (highlight ?res)))"
      using highlight_index_ok_snoc [OF 1(4) ok] by (simp add: addLine_def)
    from 1(1) [OF True refl refl refl a b c] True show ?thesis
      by (subst (1 2) analyzeHighlight_loop.simps) (simp add: Let_def)
  qed
qed

lemma analyzeHighlight_index_ok:
  assumes "analyzeHighlight a = Done a'"
  shows "highlight_index_ok (m_document a') (lines (m_highlight a'))
    \<and> length (lines (m_highlight a')) = getLineCount (m_document a')"
proof -
  from assms obtain rule where r: "m_rule a = Some rule"
    by (auto simp: analyzeHighlight_def split: option.splits)
  let ?l = "analyzeHighlight_loop (m_config a) rule (m_document a) 0 kDefaultStateId 0
      (resize (m_line_syntax_states a) (getLineCount (m_document a))) \<lparr>lines = []\<rparr>"
  from assms r have a': "m_highlight a' = snd ?l" "m_document a' = m_document a"
    by (auto simp: analyzeHighlight_def Let_def split: prod.splits)
  have "highlight_index_ok (m_document a) (lines (snd ?l))
      \<and> length (lines (snd ?l)) = max 0 (getLineCount (m_document a))"
    by (rule analyzeHighlight_loop_index_ok)
       (simp_all add: charIndexOfLine_def highlight_index_ok_def)
  then show ?thesis by (simp add: a')
qed

lemma span_index_ok_reindexSpan: "span_index_ok off (reindexSpan off s)"
  by (simp add: span_index_ok_def reindexSpan_def start_index_def end_index_def start_column_def
      end_column_def)

lemma line_index_ok_reindexLine: "line_index_ok off (reindexLine off l)"
  by (simp add: line_index_ok_def reindexLine_def list_all_iff span_index_ok_reindexSpan)

lemma resizeVectors_length:
  assumes "resizeVectors S ls end_line line_change = Done (S', ls')"
  shows "int (length S') = int (length S) + line_change"
    and "int (length ls') = int (length ls) + line_change"
  using assms
  by (auto simp: resizeVectors_def erase_range_def insert_n_def split: if_splits)

lemma resizeVectors_before:
  assumes "resizeVectors S ls end_line line_change = Done (S', ls')"
    and "i \<le> end_line" and "int i \<le> int end_line + line_change"
  shows "S' ! i = S ! i" and "ls' ! i = ls ! i"
  using assms
  by (auto simp: resizeVectors_def erase_range_def insert_n_def nth_append split: if_splits)

lemma charIndexOfLine_take:
  "take n (doc_lines d) = take n (doc_lines d') \<Longrightarrow> i \<le> n
   \<Longrightarrow> charIndexOfLine d i = charIndexOfLine d' i"
  by (metis charIndexOfLine_def min.absorb1 take_take)

lemma retokenize_loop_index_ok:
  assumes "retokenize_loop cfg rule d cel ln b st lsi S ls = Done (ln', lsi', S', ls')"
    and "lsi = charIndexOfLine d ln"
    and "\<forall>i < ln. i < length ls \<longrightarrow> line_index_ok (charIndexOfLine d i) (ls ! i)"
  shows "length ls' = length ls \<and> ln \<le> ln' \<and> lsi' = charIndexOfLine d ln'
    \<and> (\<forall>i < ln'. i < length ls' \<longrightarrow> line_index_ok (charIndexOfLine d i) (ls' ! i))"
  using assms
proof (induction cfg rule d cel ln b st lsi S ls rule: retokenize_loop.induct)
  case (1 cfg rule d cel ln b st lsi S ls)
  show ?case
  proof (cases "ln < getLineCount d \<and> \<not> b")
    case False
    with "1.prems" show ?thesis
      by (subst (asm) retokenize_loop.simps) (auto split: if_splits)
  next
    case True
    then have lt: "ln < getLineCount d" and nb: "\<not> b" by simp_all
    have bd: "ln < length S \<and> ln < length ls"
      using "1.prems"(1) lt nb by (subst (asm) retokenize_loop.simps) (auto split: if_splits)
    let ?info = "\<lparr>info_line = ln, start_state = st, start_char_offset = lsi\<rparr>"
    let ?res = "analyzeLine cfg rule (line_text (getLine d ln)) ?info"
    let ?b = "if beyond_change ln cel \<and> S ! ln = end_state ?res
              then if LineHighlight_eq (ls ! ln) (highlight ?res) then True else b else b"
    let ?lsi = "lsi + char_count ?res + getLineEndingWidth (ending (getLine d ln))"
    have eq: "retokenize_loop cfg rule d cel (Suc ln) ?b (end_state ?res) ?lsi
        (S[ln := end_state ?res]) (ls[ln := highlight ?res]) = Done (ln', lsi', S', ls')"
      using "1.prems"(1) lt nb bd
      by (subst (asm) retokenize_loop.simps) (simp add: Let_def)
    have a: "?lsi = charIndexOfLine d (Suc ln)"
      using lt "1.prems"(2) by (simp add: charIndexOfLine_Suc line_width_def)
    have ok: "line_index_ok (charIndexOfLine d ln) (highlight ?res)"
      using analyzeLine_index_ok [of ?info cfg rule "line_text (getLine d ln)"] "1.prems"(2)
      by simp
    have c: "\<forall>i < Suc ln. i < length (ls[ln := highlight ?res]) \<longrightarrow>
        line_index_ok (charIndexOfLine d i) (ls[ln := highlight ?res] ! i)"
      using "1.prems"(3) ok by (auto simp: less_Suc_eq nth_list_update)
    from 1(1) [OF lt nb bd refl refl refl refl refl refl refl refl refl eq a c]
    show ?thesis by auto
  qed
qed

lemma fixup_loop_index_ok:
  assumes "fixup_loop lcc d ln lsi ls = Done ls'"
    and "lsi = charIndexOfLine d ln"
    and "\<forall>i < getLineCount d. lcc d i = line_width (getLine d i)"
    and "\<forall>i < ln. i < length ls \<longrightarrow> line_index_ok (charIndexOfLine d i) (ls ! i)"
  shows "length ls' = length ls
    \<and> (\<forall>i < max ln (getLineCount d). i < length ls' \<longrightarrow>
         line_index_ok (charIndexOfLine d i) (ls' ! i))"
  using assms
proof (induction lcc d ln lsi ls rule: fixup_loop.induct)
  case (1 lcc d ln lsi ls)
  show ?case
  proof (cases "ln < getLineCount d")
    case False
    with "1.prems" show ?thesis
      by (subst (asm) fixup_loop.simps) (auto simp: max_def)
  next
    case True
    have bd: "ln < length ls"
      using "1.prems"(1) True by (subst (asm) fixup_loop.simps) (auto split: if_splits)
    have eq: "fixup_loop lcc d (Suc ln) (lsi + lcc d ln) (ls[ln := reindexLine lsi (ls ! ln)])
        = Done ls'"
      using "1.prems"(1) True bd by (subst (asm) fixup_loop.simps) simp
    have a: "lsi + lcc d ln = charIndexOfLine d (Suc ln)"
      using True "1.prems"(2,3) by (simp add: charIndexOfLine_Suc)
    have c: "\<forall>i < Suc ln. i < length (ls[ln := reindexLine lsi (ls ! ln)]) \<longrightarrow>
        line_index_ok (charIndexOfLine d i) (ls[ln := reindexLine lsi (ls ! ln)] ! i)"
      using "1.prems"(2,4) line_index_ok_reindexLine [of lsi "ls ! ln"]
      by (auto simp: less_Suc_eq nth_list_update)
    from 1(1) [OF True bd eq a "1.prems"(3) c] True show ?thesis
      by (auto simp: max_def)
  qed
qed

text \<open>Were \<^verbatim>\<open>lineCharCount\<close> to count a line with its ending, an incremental analysis with
  \<open>show_index\<close> set would keep the indices consistent.\<close>

lemma analyzeHighlightIncremental_index_ok:
  assumes res: "analyzeHighlightIncremental lcc a rng patched line_change = Done a'"
    and si: "show_index (m_config a)"
    and ok: "highlight_index_ok (m_document a) (lines (m_highlight a))"
    and len: "length (lines (m_highlight a)) = getLineCount (m_document a)"
    and cnt: "int (getLineCount patched) = int (getLineCount (m_document a)) + line_change"
    and pre: "take (line (range_start rng)) (doc_lines patched)
        = take (line (range_start rng)) (doc_lines (m_document a))"
    and se: "line (range_start rng) \<le> line (range_end rng)"
    and sc: "int (line (range_start rng)) \<le> int (line (range_end rng)) + line_change"
    and lcc: "\<forall>i < getLineCount patched. lcc patched i = line_width (getLine patched i)"
  shows "highlight_index_ok patched (lines (m_highlight a'))
    \<and> length (lines (m_highlight a')) = getLineCount patched \<and> m_document a' = patched"
proof -
  let ?cs = "line (range_start rng)" and ?el = "line (range_end rng)"
  let ?ls = "lines (m_highlight a)"
  from res obtain rule where r: "m_rule a = Some rule"
    by (auto simp: analyzeHighlightIncremental_def split: option.splits)
  from res r obtain S1 ls1 where
    rs: "resizeVectors (m_line_syntax_states a) ?ls ?el line_change = Done (S1, ls1)"
    by (auto simp: analyzeHighlightIncremental_def Let_def split: outcome.splits)
  from res r rs obtain st0 where sd: "seedState S1 ?cs = Done st0"
    by (auto simp: analyzeHighlightIncremental_def Let_def split: outcome.splits)
  let ?loop = "retokenize_loop (m_config a) rule patched (int ?el + line_change) ?cs False st0
      (charIndexOfLine patched ?cs) S1 ls1"
  from res r rs sd have fin: "finishIncremental lcc a patched ?loop = Done a'"
    by (simp add: analyzeHighlightIncremental_def Let_def)
  then obtain ln' lsi' S2 ls2 where lp: "?loop = Done (ln', lsi', S2, ls2)"
    by (auto simp: finishIncremental_def split: outcome.splits)
  from fin lp si obtain ls3 where fx: "fixup_loop lcc patched ln' lsi' ls2 = Done ls3"
    and a': "a' = a\<lparr>m_document := patched, m_line_syntax_states := S2,
        m_highlight := (m_highlight a)\<lparr>lines := ls3\<rparr>\<rparr>"
    by (auto simp: finishIncremental_def split: outcome.splits)
  have l1: "int (length ls1) = int (length ?ls) + line_change"
    using rs by (rule resizeVectors_length(2))
  have p1: "\<forall>i < ?cs. i < length ls1 \<longrightarrow> line_index_ok (charIndexOfLine patched i) (ls1 ! i)"
  proof (intro allI impI)
    fix i assume i: "i < ?cs" "i < length ls1"
    have e: "ls1 ! i = ?ls ! i"
      using rs i(1) se sc by (intro resizeVectors_before(2)) auto
    have il: "i < length ?ls"
    proof (cases "line_change > 0")
      case True
      with rs have "?el + 1 \<le> length ?ls"
        by (auto simp: resizeVectors_def split: if_splits)
      with i(1) se show ?thesis by simp
    next
      case False
      with l1 i(2) show ?thesis by simp
    qed
    have "charIndexOfLine patched i = charIndexOfLine (m_document a) i"
      using pre i(1) by (intro charIndexOfLine_take [where n = ?cs]) simp_all
    with ok il e show "line_index_ok (charIndexOfLine patched i) (ls1 ! i)"
      by (simp add: highlight_index_ok_iff)
  qed
  from retokenize_loop_index_ok [OF lp refl p1]
  have l2: "length ls2 = length ls1" and i2: "lsi' = charIndexOfLine patched ln'"
    and p2: "\<forall>i < ln'. i < length ls2 \<longrightarrow> line_index_ok (charIndexOfLine patched i) (ls2 ! i)"
    by simp_all
  from fixup_loop_index_ok [OF fx i2 lcc p2]
  have l3: "length ls3 = length ls2"
    and p3: "\<forall>i < max ln' (getLineCount patched). i < length ls3 \<longrightarrow>
        line_index_ok (charIndexOfLine patched i) (ls3 ! i)"
    by simp_all
  have l: "length ls3 = getLineCount patched"
    using l1 l2 l3 len cnt by simp
  with p3 have "highlight_index_ok patched ls3"
    by (simp add: highlight_index_ok_iff max_def)
  with l show ?thesis by (simp add: a')
qed

section \<open>Concrete inputs\<close>

subsection \<open>Regexes and grammars\<close>

text \<open>A span of line 0 given by its columns, for the examples below.\<close>

definition span_at :: "nat \<Rightarrow> nat \<Rightarrow> nat \<Rightarrow> int \<Rightarrow> int \<Rightarrow> int \<Rightarrow> string \<Rightarrow> TokenSpan" where
  "span_at off c1 c2 style st goto txt =
     \<lparr>span_range = \<lparr>range_start = position 0 c1 (off + c1), range_end = position 0 c2 (off + c2)\<rparr>,
      style_id = style, state = st, goto_state = goto, matched_text = txt, inline_style = None\<rparr>"

text \<open>A region from the list of its groups' offsets; groups beyond the list took no part.\<close>

definition region_of :: "(int \<times> int) list \<Rightarrow> OnigRegion" where
  "region_of l =
     \<lparr>region_beg = (\<lambda>g. if g < length l then fst (l ! g) else - 1),
      region_end = (\<lambda>g. if g < length l then snd (l ! g) else - 1)\<rparr>"

definition groups_ok :: "string \<Rightarrow> nat \<Rightarrow> (int \<times> int) list \<Rightarrow> bool" where
  "groups_ok t s l \<longleftrightarrow>
     l \<noteq> [] \<and> int s \<le> fst (hd l) \<and> snd (hd l) \<le> int (length t)
     \<and> list_all (\<lambda>(b, e). b \<le> e) l
     \<and> (if nat (fst (hd l)) < length t then \<not> is_continuation (t ! nat (fst (hd l))) else True)"

lemma groups_ok_region:
  assumes "(case f t s of None \<Rightarrow> None
     | Some l \<Rightarrow> if groups_ok t s l then Some (region_of l) else None) = Some r"
  shows "region_ok t s r"
proof -
  from assms obtain l where ok: "groups_ok t s l" and r: "r = region_of l"
    by (auto split: option.splits if_splits)
  have "\<And>g. region_beg r g \<le> region_end r g"
    using ok by (auto simp: r region_of_def groups_ok_def list_all_length split: prod.splits)
  then show "region_ok t s r"
    using ok by (auto simp: r region_of_def groups_ok_def region_ok_def hd_conv_nth split: if_splits)
qed

text \<open>A regex from any search function: a result that no engine would give is dropped.\<close>

lift_definition mk_regex :: "(string \<Rightarrow> nat \<Rightarrow> (int \<times> int) list option) \<Rightarrow> regex" is
  "\<lambda>f t s. case f t s of None \<Rightarrow> None
     | Some l \<Rightarrow> if groups_ok t s l then Some (region_of l) else None"
  by (rule groups_ok_region)

text \<open>A regex that matches nowhere, and grammars from their state maps: in the examples
  the lookup of a state that the map lacks hands back a rule with that regex, no token
  rules and no line-end state.\<close>

lift_definition never_regex :: regex is "\<lambda>t s. None"
  by simp

definition grammar_of :: "(int \<Rightarrow> StateRule option) \<Rightarrow> SyntaxRule" where
  "grammar_of m =
     \<lparr>states = m, absent_rule = (\<lambda>s. StateRule never_regex [] (- 1)),
      getInlineStyle = (\<lambda>s. None)\<rparr>"

text \<open>The first maximal run, at or after the start offset, of bytes that satisfy \<open>P\<close>:
  the regex \<open>([P]+)\<close>, with the whole match as groups 0 and 1.\<close>

definition run_search :: "(char \<Rightarrow> bool) \<Rightarrow> string \<Rightarrow> nat \<Rightarrow> (int \<times> int) list option" where
  "run_search P t s =
     (let rest = drop s t;
          skip = length (takeWhile (\<lambda>c. \<not> P c) rest);
          n = length (takeWhile P (drop skip rest))
      in if n = 0 then None
         else Some [(int (s + skip), int (s + skip + n)), (int (s + skip), int (s + skip + n))])"

definition is_digit :: "char \<Rightarrow> bool" where
  "is_digit c \<longleftrightarrow> c \<in> set ''0123456789''"

definition is_lower :: "char \<Rightarrow> bool" where
  "is_lower c \<longleftrightarrow> c \<in> set ''abcdefghijklmnopqrstuvwxyz''"

definition digits_state :: StateRule where
  "digits_state = StateRule (mk_regex (run_search is_digit))
     [TokenRule 1 0 (\<lambda>g. 2) (- 1) None] (- 1)"

definition plain_cfg :: HighlightConfig where
  "plain_cfg = \<lparr>show_index = True, cfg_inline_style = False\<rparr>"

definition digits_grammar :: SyntaxRule where
  "digits_grammar = grammar_of [0 \<mapsto> digits_state]"

lemmas eval_simps =
  onig_search_def mk_regex.rep_eq never_regex.rep_eq region_of_def groups_ok_def run_search_def
  is_digit_def is_lower_def is_continuation_def countChars_def bytePosToCharPos_def utf8Substr_def
  searchAtPosition_def findMatchedRuleAndGroup_def collectGroups_def MatchResult_default_def
  matchAtPosition.simps subLoop.simps matchAtPositionState_def containsRule_def getStateRule_def
  grammar_of_def localSpan_def shiftColumns_def subMatchContent_def gapBefore_def tailGap_def
  nextSubPos_def emitSubSpan_def emitWholeSpan_def emitGroupSpan_def emittedSpans_def
  addLineHighlightResult_def pushOrMergeSpan_def extend_end_def start_column_def end_column_def
  end_index_def start_index_def position_def TokenSpan_default_def TextPosition_default_def
  LineHighlight_empty_def LineAnalyzeResult_default_def analyzeLine_loop.simps analyzeLine_def
  Let_def upt_conv_Cons

definition empty_match_state :: StateRule where
  "empty_match_state = StateRule (mk_regex (\<lambda>t s. Some [(int s, int s), (int s, int s)]))
     [TokenRule 1 0 (\<lambda>g. 4) (- 1) None] (- 1)"

definition info0 :: TextLineInfo where
  "info0 = \<lparr>info_line = 0, start_state = 0, start_char_offset = 0\<rparr>"

definition is_alnum :: "char \<Rightarrow> bool" where
  "is_alnum c \<longleftrightarrow> is_lower c \<or> is_digit c"

text \<open>State 0 of a small grammar: identifiers (style 1, go to state 3) with the digits
  inside them as a sub-grammar (style 2). State 3: words, as whole matches (style 7).\<close>

definition ident_state :: StateRule where
  "ident_state = StateRule (mk_regex (run_search is_alnum))
     [TokenRule 1 0 (\<lambda>g. 1) 3 (Some digits_state)] (- 1)"

definition word_state :: StateRule where
  "word_state = StateRule (mk_regex (run_search is_lower))
     [TokenRule 1 0 (\<lambda>g. 7) 0 None] (- 1)"

definition ident_grammar :: SyntaxRule where
  "ident_grammar = grammar_of [0 \<mapsto> ident_state, 3 \<mapsto> word_state]"

text \<open>The regex \<open>((a)b(c))\<close>: the literal with its first and last letter captured.\<close>

fun find_lit :: "string \<Rightarrow> string \<Rightarrow> nat \<Rightarrow> nat option" where
  "find_lit w [] i = None"
| "find_lit w (c # cs) i = (if take (length w) (c # cs) = w then Some i else find_lit w cs (Suc i))"

definition abc_search :: "string \<Rightarrow> nat \<Rightarrow> (int \<times> int) list option" where
  "abc_search t s =
     (case find_lit ''abc'' (drop s t) s of None \<Rightarrow> None
      | Some i \<Rightarrow> Some [(int i, int i + 3), (int i, int i + 3), (int i, int i + 1),
                        (int i + 2, int i + 3)])"

definition abc_state :: StateRule where
  "abc_state = StateRule (mk_regex abc_search)
     [TokenRule 1 2 (\<lambda>g. 10 + int g) 5 None] (- 1)"

definition abc_grammar :: SyntaxRule where
  "abc_grammar = grammar_of [0 \<mapsto> abc_state]"

lemmas eval_inputs =
  digits_state_def digits_grammar_def plain_cfg_def info0_def empty_match_state_def
  is_alnum_def ident_state_def word_state_def ident_grammar_def abc_search_def abc_state_def
  abc_grammar_def span_at_def

text \<open>Words (style 1) whose sub-grammar is the regex \<open>((a)b(c))\<close> with its two capture
  groups.\<close>

definition letters_state :: StateRule where
  "letters_state = StateRule (mk_regex (run_search is_lower))
     [TokenRule 1 0 (\<lambda>g. 1) (- 1) (Some abc_state)] (- 1)"

definition letters_grammar :: SyntaxRule where
  "letters_grammar = grammar_of [0 \<mapsto> letters_state]"

text \<open>Words (style 1) whose sub-grammar is the regex \<open>((a)b(c))\<close> with its two capture
  groups, where that rule has the digits as a sub-grammar of its own.\<close>

definition abc_digits_state :: StateRule where
  "abc_digits_state = StateRule (mk_regex abc_search)
     [TokenRule 1 2 (\<lambda>g. 10 + int g) 5 (Some digits_state)] (- 1)"

definition nested_state :: StateRule where
  "nested_state = StateRule (mk_regex (run_search is_lower))
     [TokenRule 1 0 (\<lambda>g. 1) (- 1) (Some abc_digits_state)] (- 1)"

definition nested_grammar :: SyntaxRule where
  "nested_grammar = grammar_of [0 \<mapsto> nested_state]"

definition word_grammar :: SyntaxRule where
  "word_grammar = grammar_of [0 \<mapsto> word_state]"

lemmas eval_text =
  analyzeText_def analyzeText_loop.simps find_newline_def strip_cr_def addLine_def newline_def
  carriage_return_def kDefaultStateId_def word_grammar_def

subsection \<open>Documents and edits\<close>

text \<open>The other reading, for comparison: the characters of a line with its ending.\<close>

definition lineCharCount_with_ending :: "Document \<Rightarrow> nat \<Rightarrow> nat" where
  "lineCharCount_with_ending d i = line_width (getLine d i)"

definition doc_of :: "(string \<times> LineEnding) list \<Rightarrow> Document" where
  "doc_of ls = \<lparr>doc_lines = map (\<lambda>(t, e). \<lparr>line_text = t, ending = e\<rparr>) ls\<rparr>"

definition fresh_analyzer :: "Document \<Rightarrow> SyntaxRule \<Rightarrow> HighlightConfig \<Rightarrow> InternalDocumentAnalyzer" where
  "fresh_analyzer d rule cfg =
     \<lparr>m_document = d, m_rule = Some rule, m_config = cfg, m_line_syntax_states = [],
      m_highlight = \<lparr>lines = []\<rparr>\<rparr>"

text \<open>An edit behind a full analysis.\<close>

definition then_incremental ::
  "(Document \<Rightarrow> nat \<Rightarrow> nat) \<Rightarrow> InternalDocumentAnalyzer outcome \<Rightarrow> TextRange \<Rightarrow> Document \<Rightarrow> int
   \<Rightarrow> InternalDocumentAnalyzer outcome" where
  "then_incremental lineCharCount r rng patched line_change =
     (case r of Done a \<Rightarrow> analyzeHighlightIncremental lineCharCount a rng patched line_change
      | Null \<Rightarrow> Null | OutOfBounds \<Rightarrow> OutOfBounds)"

definition highlight_of :: "InternalDocumentAnalyzer outcome \<Rightarrow> DocumentHighlight option" where
  "highlight_of r = (case r of Done a \<Rightarrow> Some (m_highlight a) | Null \<Rightarrow> None | OutOfBounds \<Rightarrow> None)"

definition span_lines :: "DocumentHighlight \<Rightarrow> nat list list" where
  "span_lines h = map (\<lambda>l. map (\<lambda>s. line (range_start (span_range s))) (spans l)) (lines h)"

definition span_indices :: "DocumentHighlight \<Rightarrow> (nat \<times> nat) list list" where
  "span_indices h = map (\<lambda>l. map (\<lambda>s. (start_index s, end_index s)) (spans l)) (lines h)"

text \<open>The text of two empty lines and the line \<open>y\<close>, and what inserting a newline at its very
  beginning leaves of it.\<close>

definition doc_before :: Document where
  "doc_before = doc_of [([], LF), ([], LF), (''y'', NONE)]"

definition doc_after :: Document where
  "doc_after = doc_of [([], LF), ([], LF), ([], LF), (''y'', NONE)]"

definition caret :: "nat \<Rightarrow> nat \<Rightarrow> nat \<Rightarrow> TextRange" where
  "caret l c i = \<lparr>range_start = position l c i, range_end = position l c i\<rparr>"

lemmas eval_doc =
  analyzeHighlight_def analyzeHighlight_loop.simps analyzeHighlightIncremental_def
  retokenize_loop.simps fixup_loop.simps getLineCount_def getLine_def line_width_def
  charIndexOfLine_def resize_def resizeVectors_def seedState_def finishIncremental_def
  erase_range_def insert_n_def beyond_change_def reindexSpan_def
  reindexLine_def lineCharCount_with_ending_def getLineCharCount_def doc_of_def
  fresh_analyzer_def addLine_def then_incremental_def highlight_of_def
  span_lines_def span_indices_def DocumentHighlight_eq_def
  kDefaultStateId_def LineHighlight_eq_def TokenSpan_eq_def word_grammar_def caret_def
  doc_before_def doc_after_def

text \<open>The analyzer behind the full analysis of \<open>doc_before\<close>.\<close>

definition analyzed_before :: InternalDocumentAnalyzer where
  "analyzed_before =
     \<lparr>m_document = doc_before, m_rule = Some word_grammar, m_config = plain_cfg,
      m_line_syntax_states = [0, 0, 0],
      m_highlight = \<lparr>lines = [\<lparr>spans = []\<rparr>, \<lparr>spans = []\<rparr>,
         \<lparr>spans = [\<lparr>span_range = \<lparr>range_start = position 2 0 2, range_end = position 2 1 3\<rparr>,
                    style_id = 7, state = 0, goto_state = 0, matched_text = ''y'',
                    inline_style = None\<rparr>]\<rparr>]\<rparr>\<rparr>"

lemma analyzeHighlight_doc_before:
  "analyzeHighlight (fresh_analyzer doc_before word_grammar plain_cfg) = Done analyzed_before"
  by (simp add: analyzed_before_def eval_doc eval_simps eval_inputs cong: let_weak_cong)

text \<open>The lines \<open>x\<close>, an empty line, \<open>y\<close> and \<open>z\<close>, and the same with a second \<open>x\<close> typed
  behind the first.\<close>

definition doc_xyz :: Document where
  "doc_xyz = doc_of [(''x'', LF), ([], LF), (''y'', LF), (''z'', NONE)]"

definition doc_xxyz :: Document where
  "doc_xxyz = doc_of [(''xx'', LF), ([], LF), (''y'', LF), (''z'', NONE)]"

definition lines_of :: "InternalDocumentAnalyzer outcome \<Rightarrow> LineHighlight list" where
  "lines_of r = (case r of Done a \<Rightarrow> lines (m_highlight a) | Null \<Rightarrow> [] | OutOfBounds \<Rightarrow> [])"

text \<open>A span of a line given by the line, the character index of the line and the two
  columns.\<close>

definition span_on ::
  "nat \<Rightarrow> nat \<Rightarrow> nat \<Rightarrow> nat \<Rightarrow> int \<Rightarrow> int \<Rightarrow> int \<Rightarrow> string \<Rightarrow> TokenSpan" where
  "span_on ln off c1 c2 style st goto txt =
     \<lparr>span_range = \<lparr>range_start = position ln c1 (off + c1),
                     range_end = position ln c2 (off + c2)\<rparr>,
      style_id = style, state = st, goto_state = goto, matched_text = txt, inline_style = None\<rparr>"

text \<open>The lines \<open>x\<close>, \<open>y\<close>, an empty line and \<open>z\<close>; the same with a second \<open>x\<close> typed behind
  the first, and with \<open>x\<close> replaced by \<open>w\<close>; and the analyzer behind the full analysis of the
  first.\<close>

definition doc_x_y_z :: Document where
  "doc_x_y_z = doc_of [(''x'', LF), (''y'', LF), ([], LF), (''z'', NONE)]"

definition doc_xx_y_z :: Document where
  "doc_xx_y_z = doc_of [(''xx'', LF), (''y'', LF), ([], LF), (''z'', NONE)]"

definition doc_w_y_z :: Document where
  "doc_w_y_z = doc_of [(''w'', LF), (''y'', LF), ([], LF), (''z'', NONE)]"

definition analyzed_x_y_z :: InternalDocumentAnalyzer where
  "analyzed_x_y_z =
     \<lparr>m_document = doc_x_y_z, m_rule = Some word_grammar, m_config = plain_cfg,
      m_line_syntax_states = [0, 0, 0, 0],
      m_highlight = \<lparr>lines = [\<lparr>spans = [span_on 0 0 0 1 7 0 0 ''x'']\<rparr>,
         \<lparr>spans = [span_on 1 2 0 1 7 0 0 ''y'']\<rparr>, \<lparr>spans = []\<rparr>,
         \<lparr>spans = [span_on 3 5 0 1 7 0 0 ''z'']\<rparr>]\<rparr>\<rparr>"

lemma analyzeHighlight_doc_x_y_z:
  "analyzeHighlight (fresh_analyzer doc_x_y_z word_grammar plain_cfg) = Done analyzed_x_y_z"
  by (simp add: analyzed_x_y_z_def doc_x_y_z_def span_on_def eval_doc eval_simps eval_inputs
      cong: let_weak_cong)

text \<open>The lines \<open>ab\<close>, an empty line and \<open>cd\<close> under the grammar of identifiers and words,
  whose states change with every match; the same with the first line emptied, and with
  an \<open>x\<close> typed into the second line.\<close>

definition doc_ab_cd :: Document where
  "doc_ab_cd = doc_of [(''ab'', LF), ([], LF), (''cd'', NONE)]"

definition doc_e_cd :: Document where
  "doc_e_cd = doc_of [([], LF), ([], LF), (''cd'', NONE)]"

definition doc_ab_x_cd :: Document where
  "doc_ab_x_cd = doc_of [(''ab'', LF), (''x'', LF), (''cd'', NONE)]"

definition analyzed_ab_cd :: InternalDocumentAnalyzer where
  "analyzed_ab_cd =
     \<lparr>m_document = doc_ab_cd, m_rule = Some ident_grammar, m_config = plain_cfg,
      m_line_syntax_states = [3, 3, 0],
      m_highlight = \<lparr>lines = [\<lparr>spans = [span_on 0 0 0 2 1 0 (- 1) []]\<rparr>, \<lparr>spans = []\<rparr>,
         \<lparr>spans = [span_on 2 4 0 2 7 3 0 ''cd'']\<rparr>]\<rparr>\<rparr>"

lemma analyzeHighlight_doc_ab_cd:
  "analyzeHighlight (fresh_analyzer doc_ab_cd ident_grammar plain_cfg) = Done analyzed_ab_cd"
  by (simp add: analyzed_ab_cd_def doc_ab_cd_def span_on_def eval_doc eval_simps eval_inputs
      cong: let_weak_cong)

section \<open>The claims\<close>

text \<open>
  C1. The code does not keep what the claim states. The document of two empty lines and
  the line \<open>y\<close> is analysed in full; then a newline is inserted at line 0, column 0. The
  loop is stable at line 2 (an empty line in the state it had), so the last line is not
  tokenized again: its span keeps the line number 2, where the full analysis of the new
  text gives 3. Only the index of the span is fixed up.
\<close>

theorem C1_incremental_keeps_stale_line:
  "map_option span_lines (highlight_of
      (then_incremental lineCharCount_with_ending
         (analyzeHighlight (fresh_analyzer doc_before word_grammar plain_cfg))
         (caret 0 0 0) doc_after 1))
     = Some [[], [], [], [2]]
   \<and> map_option span_lines (highlight_of
      (then_incremental getLineCharCount
         (analyzeHighlight (fresh_analyzer doc_before word_grammar plain_cfg))
         (caret 0 0 0) doc_after 1))
     = Some [[], [], [], [2]]
   \<and> map_option span_lines (highlight_of
      (analyzeHighlight (fresh_analyzer doc_after word_grammar plain_cfg)))
     = Some [[], [], [], [3]]
   \<and> map_option span_indices (highlight_of
      (then_incremental lineCharCount_with_ending
         (analyzeHighlight (fresh_analyzer doc_before word_grammar plain_cfg))
         (caret 0 0 0) doc_after 1))
     = Some [[], [], [], [(3, 4)]]
   \<and> map_option span_indices (highlight_of
      (analyzeHighlight (fresh_analyzer doc_after word_grammar plain_cfg)))
     = Some [[], [], [], [(3, 4)]]
   \<and> (case (highlight_of
               (then_incremental lineCharCount_with_ending
                  (analyzeHighlight (fresh_analyzer doc_before word_grammar plain_cfg))
                  (caret 0 0 0) doc_after 1),
             highlight_of (analyzeHighlight (fresh_analyzer doc_after word_grammar plain_cfg)))
       of (Some incremental, Some full) \<Rightarrow> \<not> DocumentHighlight_eq incremental full
        | _ \<Rightarrow> False)"
  by (simp add: eval_doc eval_simps eval_inputs cong: let_weak_cong)

text \<open>
  C2. As stated, the claim fails on the empty string: \<^verbatim>\<open>analyzeText\<close> returns before it
  tokenizes anything, and the result has no line at all.
\<close>

theorem C2_empty_text_has_no_line:
  "lines (analyzeText plain_cfg word_grammar []) = []
   \<and> length (lines (analyzeText plain_cfg word_grammar [])) \<noteq> 1"
  by (simp add: analyzeText_def)

text \<open>
  C2, amended. \<^verbatim>\<open>analyzeText\<close> applied to the empty string returns a highlight without
  lines; applied to a text that is not empty it returns one line highlight per line of
  the text, that is one more than the text has newlines.
\<close>

theorem C2_line_count:
  "length (lines (analyzeText cfg rule t)) = (if t = [] then 0 else Suc (count_list t newline))"
  by (simp add: analyzeText_def analyzeText_loop_length)

theorem C2_line_count_witness:
  "length (lines (analyzeText plain_cfg word_grammar (''ab'' @ [newline] @ ''c'' @ [newline]))) = 3
   \<and> length (lines (analyzeText plain_cfg word_grammar [])) = 0"
  using C2_line_count [of plain_cfg word_grammar "''ab'' @ [newline] @ ''c'' @ [newline]"]
    C2_line_count [of plain_cfg word_grammar "[]"]
  by (simp add: newline_def)

text \<open>
  C6. For a text that is not empty \<^verbatim>\<open>analyzeText\<close> returns one line highlight more than
  the text has newlines. The line behind the last newline is always tokenized: when the
  loop stands at the start of a stretch without a newline up to the end of the text, it
  returns with the highlight that \<^verbatim>\<open>analyzeLine\<close> gives for that stretch, less a trailing
  carriage return, appended; so the last line highlight of a text is that of the line
  behind its last newline, analysed with its line number and its character offset, the
  only line highlight of a text without a newline is that of the text, and when the text
  ends with a newline the last line highlight is empty. One pass of the loop over a
  line that ends in a carriage return tokenizes the line without the carriage return and
  goes on with the start offset advanced by the character count of the line plus one for
  the carriage return plus one for the newline; without a carriage return the advance is
  the character count plus one.
\<close>

theorem C6_final_line_and_cr:
  "(t \<noteq> [] \<longrightarrow> length (lines (analyzeText cfg rule t)) = Suc (count_list t newline))
   \<and> length (lines (analyzeText cfg rule (pre @ [newline]))) = count_list pre newline + 2
   \<and> last (lines (analyzeText cfg rule (pre @ [newline]))) = LineHighlight_empty
   \<and> (newline \<notin> set l \<longrightarrow>
        analyzeText_loop cfg rule (pre @ (l @ [carriage_return]) @ newline # rest) line_info
          (length pre) h
        = analyzeText_loop cfg rule (pre @ (l @ [carriage_return]) @ newline # rest)
            (line_info\<lparr>info_line := info_line line_info + 1,
               start_state := end_state (analyzeLine cfg rule l line_info),
               start_char_offset := start_char_offset line_info + countChars l + 1 + 1\<rparr>)
            (length pre + length l + 2)
            (addLine h (highlight (analyzeLine cfg rule l line_info))))
   \<and> (newline \<notin> set l \<and> (l = [] \<or> last l \<noteq> carriage_return) \<longrightarrow>
        analyzeText_loop cfg rule (pre @ l @ newline # rest) line_info (length pre) h
        = analyzeText_loop cfg rule (pre @ l @ newline # rest)
            (line_info\<lparr>info_line := info_line line_info + 1,
               start_state := end_state (analyzeLine cfg rule l line_info),
               start_char_offset := start_char_offset line_info + countChars l + 1\<rparr>)
            (length pre + length l + 1)
            (addLine h (highlight (analyzeLine cfg rule l line_info))))
   \<and> (newline \<notin> set fin \<longrightarrow>
        analyzeText_loop cfg rule (pre @ fin) line_info (length pre) h
        = addLine h (highlight (analyzeLine cfg rule
            (if fin \<noteq> [] \<and> last fin = carriage_return then butlast fin else fin) line_info)))
   \<and> (newline \<notin> set fin \<and> fin \<noteq> [] \<longrightarrow>
        lines (analyzeText cfg rule fin)
        = [highlight (analyzeLine cfg rule
            (if last fin = carriage_return then butlast fin else fin)
            \<lparr>info_line = 0, start_state = kDefaultStateId, start_char_offset = 0\<rparr>)])
   \<and> (newline \<notin> set fin \<longrightarrow>
        (\<exists>info. info_line info = Suc (count_list pre newline)
           \<and> start_char_offset info = countChars (pre @ [newline])
           \<and> last (lines (analyzeText cfg rule (pre @ newline # fin)))
               = highlight (analyzeLine cfg rule
                   (if fin \<noteq> [] \<and> last fin = carriage_return then butlast fin else fin)
                   info)))"
proof (intro conjI impI)
  assume "t \<noteq> []"
  then show "length (lines (analyzeText cfg rule t)) = Suc (count_list t newline)"
    by (simp add: analyzeText_def analyzeText_loop_length)
next
  show "length (lines (analyzeText cfg rule (pre @ [newline]))) = count_list pre newline + 2"
    by (simp add: analyzeText_def analyzeText_loop_length)
  show "last (lines (analyzeText cfg rule (pre @ [newline]))) = LineHighlight_empty"
    by (simp add: analyzeText_def analyzeText_loop_last_empty)
next
  assume n: "newline \<notin> set l"
  have "newline \<notin> set (l @ [carriage_return])"
    using n by (simp add: newline_def carriage_return_def)
  moreover have "strip_cr (l @ [carriage_return]) = (True, l)"
    by (simp add: strip_cr_def)
  ultimately show "analyzeText_loop cfg rule (pre @ (l @ [carriage_return]) @ newline # rest)
          line_info (length pre) h
        = analyzeText_loop cfg rule (pre @ (l @ [carriage_return]) @ newline # rest)
            (line_info\<lparr>info_line := info_line line_info + 1,
               start_state := end_state (analyzeLine cfg rule l line_info),
               start_char_offset := start_char_offset line_info + countChars l + 1 + 1\<rparr>)
            (length pre + length l + 2)
            (addLine h (highlight (analyzeLine cfg rule l line_info)))"
    using analyzeText_loop_step [of "l @ [carriage_return]" True l cfg rule pre rest line_info h]
    by simp
next
  assume a: "newline \<notin> set l \<and> (l = [] \<or> last l \<noteq> carriage_return)"
  then have "strip_cr l = (False, l)"
    by (auto simp: strip_cr_def)
  with a show "analyzeText_loop cfg rule (pre @ l @ newline # rest) line_info (length pre) h
        = analyzeText_loop cfg rule (pre @ l @ newline # rest)
            (line_info\<lparr>info_line := info_line line_info + 1,
               start_state := end_state (analyzeLine cfg rule l line_info),
               start_char_offset := start_char_offset line_info + countChars l + 1\<rparr>)
            (length pre + length l + 1)
            (addLine h (highlight (analyzeLine cfg rule l line_info)))"
    using analyzeText_loop_step [of l False l cfg rule pre rest line_info h]
    by simp
next
  assume "newline \<notin> set fin"
  then show "analyzeText_loop cfg rule (pre @ fin) line_info (length pre) h
        = addLine h (highlight (analyzeLine cfg rule
            (if fin \<noteq> [] \<and> last fin = carriage_return then butlast fin else fin) line_info))"
    using analyzeText_loop_final [of fin cfg rule pre line_info h]
    by (simp add: strip_cr_def)
next
  assume "newline \<notin> set fin \<and> fin \<noteq> []"
  then show "lines (analyzeText cfg rule fin)
        = [highlight (analyzeLine cfg rule
            (if last fin = carriage_return then butlast fin else fin)
            \<lparr>info_line = 0, start_state = kDefaultStateId, start_char_offset = 0\<rparr>)]"
    using analyzeText_single_line [of fin cfg rule]
    by (simp add: strip_cr_def)
next
  assume n: "newline \<notin> set fin"
  show "\<exists>info. info_line info = Suc (count_list pre newline)
           \<and> start_char_offset info = countChars (pre @ [newline])
           \<and> last (lines (analyzeText cfg rule (pre @ newline # fin)))
               = highlight (analyzeLine cfg rule
                   (if fin \<noteq> [] \<and> last fin = carriage_return then butlast fin else fin)
                   info)"
    using analyzeText_last_line [OF n, of pre cfg rule]
    by (simp only: snd_strip_cr)
qed

theorem C6_final_line_and_cr_witness:
  "lines (analyzeText plain_cfg word_grammar (''a'' @ [newline]))
     = [\<lparr>spans = [span_at 0 0 1 7 0 0 ''a'']\<rparr>, \<lparr>spans = []\<rparr>]
   \<and> last (lines (analyzeText plain_cfg word_grammar ([] @ [newline]))) = LineHighlight_empty
   \<and> map (\<lambda>l. map (\<lambda>s. (start_index s, end_index s)) (spans l))
        (lines (analyzeText plain_cfg word_grammar (''a'' @ [carriage_return, newline] @ ''bc'')))
     = [[(0, 1)], [(3, 5)]]
   \<and> newline \<notin> set ''bc''
   \<and> lines (analyzeText plain_cfg word_grammar ''bc'')
     = [\<lparr>spans = [span_at 0 0 2 7 0 0 ''bc'']\<rparr>]
   \<and> map (\<lambda>l. map (\<lambda>s. (start_column s, end_column s, start_index s, end_index s)) (spans l))
        (lines (analyzeText plain_cfg word_grammar (''a'' @ [newline] @ ''b'' @ [carriage_return])))
     = [[(0, 1, 0, 1)], [(0, 1, 2, 3)]]"
  using C6_final_line_and_cr [of "''a'' @ [newline]" plain_cfg word_grammar "[]" "''a''" "''bc''"
      "\<lparr>info_line = 0, start_state = 0, start_char_offset = 0\<rparr>" "\<lparr>lines = []\<rparr>" "''bc''"]
  by (simp add: eval_text eval_simps eval_inputs cong: let_weak_cong)

text \<open>
  C3. As stated, the claim fails: a sub-match whose rule has capture groups and no
  sub-grammar of its own contributes one span per capture group, and what lies between
  the groups is covered by no span. In the line \<open>abc\<close>, matched by a word rule whose
  sub-grammar is \<open>((a)b(c))\<close>, the emitted spans are the columns 0 to 1 and 2 to 3; column 1
  is a gap.
\<close>

theorem C3_capture_groups_leave_gap:
  "winner_sub letters_state (searchAtPosition ''abc'' 0 letters_state) = Some abc_state
   \<and> m_start (matchAtPositionState plain_cfg letters_grammar ''abc'' 0 0) = 0
   \<and> m_length (matchAtPositionState plain_cfg letters_grammar ''abc'' 0 0) = 3
   \<and> map (\<lambda>s. (start_column s, end_column s, style_id s))
        (emittedSpans plain_cfg letters_grammar info0 0
           (matchAtPositionState plain_cfg letters_grammar ''abc'' 0 0))
       = [(0, 1, 11), (2, 3, 12)]
   \<and> \<not> tiles 0
        (emittedSpans plain_cfg letters_grammar info0 0
           (matchAtPositionState plain_cfg letters_grammar ''abc'' 0 0)) 3"
  by (simp add: eval_simps eval_inputs winner_sub_def letters_state_def letters_grammar_def cong: let_weak_cong)

text \<open>
  C3, amended. For every match whose winning token rule has a sub-grammar, the match has
  sub-spans and the emitted spans are exactly the sub-spans shifted to the line and stamped
  with the state: the match emits no span of its own. The sub-spans are the result of the
  sub-grammar loop run on the matched text with the style of the winning rule; the loop
  puts a span of that style before a sub-match that begins behind the cursor, and behind
  the last sub-match up to the end of the matched text. When every rule of the
  sub-grammar, at any depth, that has capture groups has a sub-grammar of its own, the
  emitted spans tile the columns of the match from its start to its end with no gap.
\<close>

theorem C3_sub_spans_tile:
  assumes "winner_sub sr (searchAtPosition t p sr) = Some sub"
  shows "sub_spans (matchAtPosition cfg rule t p sr) \<noteq> []
    \<and> emittedSpans cfg rule info st (matchAtPosition cfg rule t p sr)
        = map (emitSubSpan info st (matchAtPosition cfg rule t p sr))
            (sub_spans (matchAtPosition cfg rule t p sr))
    \<and> sub_spans (matchAtPosition cfg rule t p sr)
        = subLoop cfg rule (m_matched_text (matchAtPosition cfg rule t p sr)) sub
            (m_style (matchAtPosition cfg rule t p sr)) 0 []
    \<and> m_style (matchAtPosition cfg rule t p sr)
        = getGroupStyleId (token_rules sr ! nat (token_rule_idx (matchAtPosition cfg rule t p sr))) 0
    \<and> (sub_pos < countChars u \<and> \<not> matched (matchAtPosition cfg rule u sub_pos sub) \<longrightarrow>
          subLoop cfg rule u sub style sub_pos acc
            = acc @ [localSpan cfg rule sub_pos (countChars u) style])
    \<and> (sub_pos < countChars u \<and> matched (matchAtPosition cfg rule u sub_pos sub) \<longrightarrow>
          subLoop cfg rule u sub style sub_pos acc
            = subLoop cfg rule u sub style
                (m_start (matchAtPosition cfg rule u sub_pos sub)
                   + m_length (matchAtPosition cfg rule u sub_pos sub))
                (acc
                 @ (if sub_pos < m_start (matchAtPosition cfg rule u sub_pos sub)
                    then [localSpan cfg rule sub_pos
                            (m_start (matchAtPosition cfg rule u sub_pos sub)) style]
                    else [])
                 @ subMatchContent cfg rule (matchAtPosition cfg rule u sub_pos sub)))
    \<and> style_id (localSpan cfg rule a b style) = style
    \<and> (no_bare_groups sub \<longrightarrow>
          tiles 0 (sub_spans (matchAtPosition cfg rule t p sr))
            (m_length (matchAtPosition cfg rule t p sr))
          \<and> tiles (m_start (matchAtPosition cfg rule t p sr))
              (emittedSpans cfg rule info st (matchAtPosition cfg rule t p sr))
              (m_start (matchAtPosition cfg rule t p sr)
                 + m_length (matchAtPosition cfg rule t p sr)))"
proof -
  let ?r = "searchAtPosition t p sr" and ?mr = "matchAtPosition cfg rule t p sr"
  from assms(1) have m: "matched ?r" and i: "0 \<le> token_rule_idx ?r"
    by (simp_all add: winner_sub_def split: if_splits)
  have ne: "sub_spans ?mr \<noteq> []"
    using assms by (rule sub_spans_nonempty)
  then have e: "emittedSpans cfg rule info st ?mr = map (emitSubSpan info st ?mr) (sub_spans ?mr)"
    by (simp add: emittedSpans_def)
  have sp: "sub_spans ?mr = subLoop cfg rule (m_matched_text ?mr) sub (m_style ?mr) 0 []"
    using assms(1) by (simp add: matchAtPosition_sub_spans_winner matchAtPosition_fields)
  have sty: "m_style ?mr = getGroupStyleId (token_rules sr ! nat (token_rule_idx ?mr)) 0"
    using searchAtPosition_winner(1) [OF i] by (simp add: matchAtPosition_fields)
  have brk: "sub_pos < countChars u \<and> \<not> matched (matchAtPosition cfg rule u sub_pos sub) \<longrightarrow>
          subLoop cfg rule u sub style sub_pos acc
            = acc @ [localSpan cfg rule sub_pos (countChars u) style]"
    by (simp add: subLoop_break)
  have stp: "sub_pos < countChars u \<and> matched (matchAtPosition cfg rule u sub_pos sub) \<longrightarrow>
          subLoop cfg rule u sub style sub_pos acc
            = subLoop cfg rule u sub style
                (m_start (matchAtPosition cfg rule u sub_pos sub)
                   + m_length (matchAtPosition cfg rule u sub_pos sub))
                (acc
                 @ (if sub_pos < m_start (matchAtPosition cfg rule u sub_pos sub)
                    then [localSpan cfg rule sub_pos
                            (m_start (matchAtPosition cfg rule u sub_pos sub)) style]
                    else [])
                 @ subMatchContent cfg rule (matchAtPosition cfg rule u sub_pos sub))"
  proof
    assume a: "sub_pos < countChars u \<and> matched (matchAtPosition cfg rule u sub_pos sub)"
    then have "0 < m_length (matchAtPosition cfg rule u sub_pos sub)"
      using searchAtPosition_positive [of u sub_pos sub] by (simp add: matchAtPosition_fields)
    then have "nextSubPos (matchAtPosition cfg rule u sub_pos sub)
        = m_start (matchAtPosition cfg rule u sub_pos sub)
          + m_length (matchAtPosition cfg rule u sub_pos sub)"
      by (simp add: nextSubPos_def)
    with a show "subLoop cfg rule u sub style sub_pos acc
            = subLoop cfg rule u sub style
                (m_start (matchAtPosition cfg rule u sub_pos sub)
                   + m_length (matchAtPosition cfg rule u sub_pos sub))
                (acc
                 @ (if sub_pos < m_start (matchAtPosition cfg rule u sub_pos sub)
                    then [localSpan cfg rule sub_pos
                            (m_start (matchAtPosition cfg rule u sub_pos sub)) style]
                    else [])
                 @ subMatchContent cfg rule (matchAtPosition cfg rule u sub_pos sub))"
      by (simp add: subLoop_step gapBefore_def)
  qed
  have tl: "no_bare_groups sub \<longrightarrow>
          tiles 0 (sub_spans ?mr) (m_length ?mr)
          \<and> tiles (m_start ?mr) (emittedSpans cfg rule info st ?mr) (m_start ?mr + m_length ?mr)"
  proof
    assume ng: "no_bare_groups sub"
    have "\<forall>s. winner_sub sr ?r = Some s \<longrightarrow> no_bare_groups s"
      using assms ng by simp
    with sub_spans_tile(1) [of sr t p cfg rule] assms(1)
    have t0: "tiles 0 (sub_spans ?mr) (m_length ?r)" by blast
    have t1: "tiles (m_start ?mr) (emittedSpans cfg rule info st ?mr) (m_start ?mr + m_length ?mr)"
      using tiles_emit [OF t0, of ?mr info st] by (simp add: e matchAtPosition_fields add.commute)
    from t0 t1 show "tiles 0 (sub_spans ?mr) (m_length ?mr)
          \<and> tiles (m_start ?mr) (emittedSpans cfg rule info st ?mr) (m_start ?mr + m_length ?mr)"
      by (simp add: matchAtPosition_fields)
  qed
  from ne e sp sty brk stp tl show ?thesis
    by simp
qed

theorem C3_sub_spans_tile_witness:
  "winner_sub ident_state (searchAtPosition ''abc123def'' 0 ident_state) = Some digits_state
   \<and> no_bare_groups digits_state
   \<and> map (\<lambda>s. (start_column s, end_column s, style_id s))
        (emittedSpans plain_cfg ident_grammar info0 0
           (matchAtPosition plain_cfg ident_grammar ''abc123def'' 0 ident_state))
       = [(0, 3, 1), (3, 6, 2), (6, 9, 1)]
   \<and> tiles 0
        (emittedSpans plain_cfg ident_grammar info0 0
           (matchAtPosition plain_cfg ident_grammar ''abc123def'' 0 ident_state)) 9
   \<and> winner_sub nested_state (searchAtPosition ''xabcx'' 0 nested_state) = Some abc_digits_state
   \<and> no_bare_groups abc_digits_state
   \<and> capture_groups (searchAtPosition ''abc'' 0 abc_digits_state) \<noteq> []
   \<and> map (\<lambda>s. (start_column s, end_column s, style_id s))
        (emittedSpans plain_cfg nested_grammar info0 0
           (matchAtPosition plain_cfg nested_grammar ''xabcx'' 0 nested_state))
       = [(0, 1, 1), (1, 4, 10), (4, 5, 1)]
   \<and> tiles 0
        (emittedSpans plain_cfg nested_grammar info0 0
           (matchAtPosition plain_cfg nested_grammar ''xabcx'' 0 nested_state)) 5
   \<and> winner_sub letters_state (searchAtPosition ''abc'' 0 letters_state) = Some abc_state
   \<and> \<not> no_bare_groups abc_state
   \<and> emittedSpans plain_cfg letters_grammar info0 0
        (matchAtPosition plain_cfg letters_grammar ''abc'' 0 letters_state)
       = map (emitSubSpan info0 0 (matchAtPosition plain_cfg letters_grammar ''abc'' 0 letters_state))
           (sub_spans (matchAtPosition plain_cfg letters_grammar ''abc'' 0 letters_state))"
proof -
  have w: "winner_sub ident_state (searchAtPosition ''abc123def'' 0 ident_state) = Some digits_state"
    by (simp add: eval_simps eval_inputs winner_sub_def cong: let_weak_cong)
  have n: "no_bare_groups digits_state"
    by (simp add: no_bare_groups.simps digits_state_def)
  have c: "map (\<lambda>s. (start_column s, end_column s, style_id s))
        (emittedSpans plain_cfg ident_grammar info0 0
           (matchAtPosition plain_cfg ident_grammar ''abc123def'' 0 ident_state))
       = [(0, 3, 1), (3, 6, 2), (6, 9, 1)]"
    by (simp add: eval_simps eval_inputs cong: let_weak_cong)
  have m: "m_start (matchAtPosition plain_cfg ident_grammar ''abc123def'' 0 ident_state) = 0
      \<and> m_length (matchAtPosition plain_cfg ident_grammar ''abc123def'' 0 ident_state) = 9"
    by (simp add: eval_simps eval_inputs cong: let_weak_cong)
  have t: "tiles 0
      (emittedSpans plain_cfg ident_grammar info0 0
         (matchAtPosition plain_cfg ident_grammar ''abc123def'' 0 ident_state)) 9"
    using C3_sub_spans_tile [OF w, of plain_cfg ident_grammar info0 0,
        THEN conjunct2, THEN conjunct2, THEN conjunct2, THEN conjunct2,
        THEN conjunct2, THEN conjunct2, THEN conjunct2]
      n m
    by simp
  have w2: "winner_sub nested_state (searchAtPosition ''xabcx'' 0 nested_state)
      = Some abc_digits_state"
    by (simp add: eval_simps eval_inputs winner_sub_def nested_state_def cong: let_weak_cong)
  have n2: "no_bare_groups abc_digits_state"
    by (simp add: no_bare_groups.simps abc_digits_state_def digits_state_def)
  have g2: "capture_groups (searchAtPosition ''abc'' 0 abc_digits_state) \<noteq> []"
    by (simp add: eval_simps eval_inputs abc_digits_state_def cong: let_weak_cong)
  have c2: "map (\<lambda>s. (start_column s, end_column s, style_id s))
        (emittedSpans plain_cfg nested_grammar info0 0
           (matchAtPosition plain_cfg nested_grammar ''xabcx'' 0 nested_state))
       = [(0, 1, 1), (1, 4, 10), (4, 5, 1)]"
    by (simp add: eval_simps eval_inputs nested_state_def abc_digits_state_def nested_grammar_def
        cong: let_weak_cong)
  have m2: "m_start (matchAtPosition plain_cfg nested_grammar ''xabcx'' 0 nested_state) = 0
      \<and> m_length (matchAtPosition plain_cfg nested_grammar ''xabcx'' 0 nested_state) = 5"
    by (simp add: eval_simps eval_inputs nested_state_def abc_digits_state_def nested_grammar_def
        cong: let_weak_cong)
  have t2: "tiles 0
      (emittedSpans plain_cfg nested_grammar info0 0
         (matchAtPosition plain_cfg nested_grammar ''xabcx'' 0 nested_state)) 5"
    using C3_sub_spans_tile [OF w2, of plain_cfg nested_grammar info0 0,
        THEN conjunct2, THEN conjunct2, THEN conjunct2, THEN conjunct2,
        THEN conjunct2, THEN conjunct2, THEN conjunct2]
      n2 m2
    by simp
  have w3: "winner_sub letters_state (searchAtPosition ''abc'' 0 letters_state) = Some abc_state"
    by (simp add: eval_simps eval_inputs winner_sub_def letters_state_def cong: let_weak_cong)
  have n3: "\<not> no_bare_groups abc_state"
    by (simp add: no_bare_groups.simps abc_state_def)
  have e3: "emittedSpans plain_cfg letters_grammar info0 0
        (matchAtPosition plain_cfg letters_grammar ''abc'' 0 letters_state)
       = map (emitSubSpan info0 0 (matchAtPosition plain_cfg letters_grammar ''abc'' 0 letters_state))
           (sub_spans (matchAtPosition plain_cfg letters_grammar ''abc'' 0 letters_state))"
    using C3_sub_spans_tile [OF w3, of plain_cfg letters_grammar info0 0, THEN conjunct2,
        THEN conjunct1]
    by simp
  from w n c t w2 n2 g2 c2 t2 w3 n3 e3 show ?thesis by blast
qed

text \<open>
  C4. One pass of the loop of \<^verbatim>\<open>analyzeHighlightIncremental\<close> over a line, not yet stable,
  tokenizes the line and goes on stable exactly when the line lies beyond
  \<open>change_end_line\<close>, the entry of the state vector for the line equals the end state just
  computed, and the line highlight stored for the line equals the one just computed: the
  two have the same number of spans, and span by span the same range, style, state and
  goto state. Once stable, the loop returns without tokenizing anything more. Beyond
  \<open>change_end_line\<close> the entries of the resized vectors are those the lines had before
  the edit. The loop is started at the first line of the range, not stable, with the state
  vector's entry for the line before it when there is one and with the default state
  otherwise, and with the character index of that line.
\<close>

theorem C4_stability_check_and_seed:
  "(ln < getLineCount d \<and> ln < length S \<and> ln < length ls \<longrightarrow>
      retokenize_loop cfg rule d cel ln False st lsi S ls =
        retokenize_loop cfg rule d cel (Suc ln)
          (0 \<le> cel \<and> cel < int ln
             \<and> S ! ln = end_state (analyzeDocumentLine cfg rule d ln st lsi)
             \<and> length (spans (ls ! ln))
                 = length (spans (highlight (analyzeDocumentLine cfg rule d ln st lsi)))
             \<and> list_all2
                 (\<lambda>old new. span_range old = span_range new \<and> style_id old = style_id new
                    \<and> state old = state new \<and> goto_state old = goto_state new)
                 (spans (ls ! ln))
                 (spans (highlight (analyzeDocumentLine cfg rule d ln st lsi))))
          (end_state (analyzeDocumentLine cfg rule d ln st lsi))
          (lsi + char_count (analyzeDocumentLine cfg rule d ln st lsi)
             + getLineEndingWidth (ending (getLine d ln)))
          (S[ln := end_state (analyzeDocumentLine cfg rule d ln st lsi)])
          (ls[ln := highlight (analyzeDocumentLine cfg rule d ln st lsi)]))
   \<and> analyzeDocumentLine cfg rule d ln st lsi
       = analyzeLine cfg rule (line_text (getLine d ln))
           \<lparr>info_line = ln, start_state = st, start_char_offset = lsi\<rparr>
   \<and> retokenize_loop cfg rule d cel ln True st lsi S ls = Done (ln, lsi, S, ls)
   \<and> (resizeVectors S ls end_line line_change = Done (S', ls')
        \<and> int end_line + line_change < int ln \<and> ln < length S' \<and> ln < length ls' \<longrightarrow>
        S' ! ln = S ! nat (int ln - line_change) \<and> ls' ! ln = ls ! nat (int ln - line_change))
   \<and> (m_rule a = Some rule
        \<and> resizeVectors (m_line_syntax_states a) (lines (m_highlight a)) (line (range_end rng))
             line_change = Done (S', ls')
        \<and> (line (range_start rng) = 0 \<or> line (range_start rng) - 1 < length S') \<longrightarrow>
        analyzeHighlightIncremental lcc a rng patched line_change =
          finishIncremental lcc a patched
            (retokenize_loop (m_config a) rule patched (int (line (range_end rng)) + line_change)
               (line (range_start rng)) False
               (if line (range_start rng) > 0 then S' ! (line (range_start rng) - 1)
                else kDefaultStateId)
               (charIndexOfLine patched (line (range_start rng))) S' ls'))"
proof (intro conjI impI)
  assume "ln < getLineCount d \<and> ln < length S \<and> ln < length ls"
  then show "retokenize_loop cfg rule d cel ln False st lsi S ls =
        retokenize_loop cfg rule d cel (Suc ln)
          (0 \<le> cel \<and> cel < int ln
             \<and> S ! ln = end_state (analyzeDocumentLine cfg rule d ln st lsi)
             \<and> length (spans (ls ! ln))
                 = length (spans (highlight (analyzeDocumentLine cfg rule d ln st lsi)))
             \<and> list_all2
                 (\<lambda>old new. span_range old = span_range new \<and> style_id old = style_id new
                    \<and> state old = state new \<and> goto_state old = goto_state new)
                 (spans (ls ! ln))
                 (spans (highlight (analyzeDocumentLine cfg rule d ln st lsi))))
          (end_state (analyzeDocumentLine cfg rule d ln st lsi))
          (lsi + char_count (analyzeDocumentLine cfg rule d ln st lsi)
             + getLineEndingWidth (ending (getLine d ln)))
          (S[ln := end_state (analyzeDocumentLine cfg rule d ln st lsi)])
          (ls[ln := highlight (analyzeDocumentLine cfg rule d ln st lsi)])"
    using retokenize_loop_step [of ln d S ls cfg rule cel st lsi]
      LineHighlight_eq_iff [of "ls ! ln" "highlight (analyzeDocumentLine cfg rule d ln st lsi)"]
    by (auto simp: analyzeDocumentLine_def Let_def beyond_change_def
        dest: list_all2_lengthD cong: conj_cong)
next
  show "analyzeDocumentLine cfg rule d ln st lsi
       = analyzeLine cfg rule (line_text (getLine d ln))
           \<lparr>info_line = ln, start_state = st, start_char_offset = lsi\<rparr>"
    by (simp add: analyzeDocumentLine_def)
next
  show "retokenize_loop cfg rule d cel ln True st lsi S ls = Done (ln, lsi, S, ls)"
    by (rule retokenize_loop_stable)
next
  assume a: "resizeVectors S ls end_line line_change = Done (S', ls')
        \<and> int end_line + line_change < int ln \<and> ln < length S' \<and> ln < length ls'"
  then have "S' ! ln = S ! nat (int ln - line_change) \<and> ls' ! ln = ls ! nat (int ln - line_change)"
    by (intro resizeVectors_beyond [of S ls end_line line_change S' ls' ln]) simp_all
  then show "S' ! ln = S ! nat (int ln - line_change)"
    and "ls' ! ln = ls ! nat (int ln - line_change)"
    by simp_all
next
  assume "m_rule a = Some rule
        \<and> resizeVectors (m_line_syntax_states a) (lines (m_highlight a)) (line (range_end rng))
             line_change = Done (S', ls')
        \<and> (line (range_start rng) = 0 \<or> line (range_start rng) - 1 < length S')"
  then show "analyzeHighlightIncremental lcc a rng patched line_change =
          finishIncremental lcc a patched
            (retokenize_loop (m_config a) rule patched (int (line (range_end rng)) + line_change)
               (line (range_start rng)) False
               (if line (range_start rng) > 0 then S' ! (line (range_start rng) - 1)
                else kDefaultStateId)
               (charIndexOfLine patched (line (range_start rng))) S' ls')"
    by (auto simp: analyzeHighlightIncremental_def seedState_def Let_def)
qed

theorem C4_stability_check_and_seed_witness:
  "analyzeHighlightIncremental getLineCharCount analyzed_x_y_z (caret 0 1 1) doc_xx_y_z 0
     = finishIncremental getLineCharCount analyzed_x_y_z doc_xx_y_z
         (retokenize_loop plain_cfg word_grammar doc_xx_y_z 0 0 False 0 0 [0, 0, 0, 0]
            (lines (m_highlight analyzed_x_y_z)))
   \<and> lines (m_highlight analyzed_x_y_z)
     = [\<lparr>spans = [span_on 0 0 0 1 7 0 0 ''x'']\<rparr>, \<lparr>spans = [span_on 1 2 0 1 7 0 0 ''y'']\<rparr>, \<lparr>spans = []\<rparr>, \<lparr>spans = [span_on 3 5 0 1 7 0 0 ''z'']\<rparr>]
   \<and> retokenize_loop plain_cfg word_grammar doc_xx_y_z 0 0 False 0 0 [0, 0, 0, 0]
        [\<lparr>spans = [span_on 0 0 0 1 7 0 0 ''x'']\<rparr>, \<lparr>spans = [span_on 1 2 0 1 7 0 0 ''y'']\<rparr>, \<lparr>spans = []\<rparr>, \<lparr>spans = [span_on 3 5 0 1 7 0 0 ''z'']\<rparr>]
     = retokenize_loop plain_cfg word_grammar doc_xx_y_z 0 1 False 0 3 [0, 0, 0, 0]
        [\<lparr>spans = [span_on 0 0 0 2 7 0 0 ''xx'']\<rparr>, \<lparr>spans = [span_on 1 2 0 1 7 0 0 ''y'']\<rparr>, \<lparr>spans = []\<rparr>, \<lparr>spans = [span_on 3 5 0 1 7 0 0 ''z'']\<rparr>]
   \<and> retokenize_loop plain_cfg word_grammar doc_xx_y_z 0 1 False 0 3 [0, 0, 0, 0]
        [\<lparr>spans = [span_on 0 0 0 2 7 0 0 ''xx'']\<rparr>, \<lparr>spans = [span_on 1 2 0 1 7 0 0 ''y'']\<rparr>, \<lparr>spans = []\<rparr>, \<lparr>spans = [span_on 3 5 0 1 7 0 0 ''z'']\<rparr>]
     = retokenize_loop plain_cfg word_grammar doc_xx_y_z 0 2 False 0 5 [0, 0, 0, 0]
        [\<lparr>spans = [span_on 0 0 0 2 7 0 0 ''xx'']\<rparr>, \<lparr>spans = [span_on 1 3 0 1 7 0 0 ''y'']\<rparr>, \<lparr>spans = []\<rparr>, \<lparr>spans = [span_on 3 5 0 1 7 0 0 ''z'']\<rparr>]
   \<and> retokenize_loop plain_cfg word_grammar doc_xx_y_z 0 2 False 0 5 [0, 0, 0, 0]
        [\<lparr>spans = [span_on 0 0 0 2 7 0 0 ''xx'']\<rparr>, \<lparr>spans = [span_on 1 3 0 1 7 0 0 ''y'']\<rparr>, \<lparr>spans = []\<rparr>, \<lparr>spans = [span_on 3 5 0 1 7 0 0 ''z'']\<rparr>]
     = Done (3, 6, [0, 0, 0, 0],
        [\<lparr>spans = [span_on 0 0 0 2 7 0 0 ''xx'']\<rparr>, \<lparr>spans = [span_on 1 3 0 1 7 0 0 ''y'']\<rparr>, \<lparr>spans = []\<rparr>, \<lparr>spans = [span_on 3 5 0 1 7 0 0 ''z'']\<rparr>])
   \<and> retokenize_loop plain_cfg word_grammar doc_w_y_z 0 1 False 0 2 [0, 0, 0, 0]
        [\<lparr>spans = [span_on 0 0 0 1 7 0 0 ''w'']\<rparr>, \<lparr>spans = [span_on 1 2 0 1 7 0 0 ''y'']\<rparr>, \<lparr>spans = []\<rparr>, \<lparr>spans = [span_on 3 5 0 1 7 0 0 ''z'']\<rparr>]
     = Done (2, 4, [0, 0, 0, 0],
        [\<lparr>spans = [span_on 0 0 0 1 7 0 0 ''w'']\<rparr>, \<lparr>spans = [span_on 1 2 0 1 7 0 0 ''y'']\<rparr>, \<lparr>spans = []\<rparr>, \<lparr>spans = [span_on 3 5 0 1 7 0 0 ''z'']\<rparr>])
   \<and> retokenize_loop plain_cfg ident_grammar doc_e_cd 0 1 False 0 1 [0, 3, 0]
        [\<lparr>spans = []\<rparr>, \<lparr>spans = []\<rparr>, \<lparr>spans = [span_on 2 4 0 2 7 3 0 ''cd'']\<rparr>]
     = retokenize_loop plain_cfg ident_grammar doc_e_cd 0 2 False 0 2 [0, 0, 0]
        [\<lparr>spans = []\<rparr>, \<lparr>spans = []\<rparr>, \<lparr>spans = [span_on 2 4 0 2 7 3 0 ''cd'']\<rparr>]
   \<and> analyzeHighlightIncremental getLineCharCount analyzed_ab_cd (caret 1 0 3) doc_ab_x_cd 0
     = finishIncremental getLineCharCount analyzed_ab_cd doc_ab_x_cd
         (retokenize_loop plain_cfg ident_grammar doc_ab_x_cd 1 1 False 3 3 [3, 3, 0]
            (lines (m_highlight analyzed_ab_cd)))
   \<and> resizeVectors (m_line_syntax_states analyzed_before) (lines (m_highlight analyzed_before)) 0 1
     = Done ([0, 0, 0, 0],
         [\<lparr>spans = []\<rparr>, \<lparr>spans = []\<rparr>, \<lparr>spans = []\<rparr>, lines (m_highlight analyzed_before) ! 2])
   \<and> [\<lparr>spans = []\<rparr>, \<lparr>spans = []\<rparr>, \<lparr>spans = []\<rparr>, lines (m_highlight analyzed_before) ! 2] ! 3
     = lines (m_highlight analyzed_before) ! 2"
proof -
  let ?S = "[0, 0, 0, 0] :: int list"
  let ?A0 = "[\<lparr>spans = [span_on 0 0 0 1 7 0 0 ''x'']\<rparr>, \<lparr>spans = [span_on 1 2 0 1 7 0 0 ''y'']\<rparr>, \<lparr>spans = []\<rparr>, \<lparr>spans = [span_on 3 5 0 1 7 0 0 ''z'']\<rparr>]"
  let ?A1 = "[\<lparr>spans = [span_on 0 0 0 2 7 0 0 ''xx'']\<rparr>, \<lparr>spans = [span_on 1 2 0 1 7 0 0 ''y'']\<rparr>, \<lparr>spans = []\<rparr>, \<lparr>spans = [span_on 3 5 0 1 7 0 0 ''z'']\<rparr>]"
  let ?A2 = "[\<lparr>spans = [span_on 0 0 0 2 7 0 0 ''xx'']\<rparr>, \<lparr>spans = [span_on 1 3 0 1 7 0 0 ''y'']\<rparr>, \<lparr>spans = []\<rparr>, \<lparr>spans = [span_on 3 5 0 1 7 0 0 ''z'']\<rparr>]"
  let ?D1 = "[\<lparr>spans = [span_on 0 0 0 1 7 0 0 ''w'']\<rparr>, \<lparr>spans = [span_on 1 2 0 1 7 0 0 ''y'']\<rparr>, \<lparr>spans = []\<rparr>, \<lparr>spans = [span_on 3 5 0 1 7 0 0 ''z'']\<rparr>]"
  let ?B1 = "[\<lparr>spans = []\<rparr>, \<lparr>spans = []\<rparr>, \<lparr>spans = [span_on 2 4 0 2 7 3 0 ''cd'']\<rparr>]"
  let ?ls = "[\<lparr>spans = []\<rparr>, \<lparr>spans = []\<rparr>, \<lparr>spans = []\<rparr>, lines (m_highlight analyzed_before) ! 2]"
  have g: "getLineCount doc_xx_y_z = 4 \<and> getLineCount doc_w_y_z = 4 \<and> getLineCount doc_e_cd = 3"
    by (simp add: doc_xx_y_z_def doc_w_y_z_def doc_e_cd_def doc_of_def getLineCount_def)
  have w: "getLineEndingWidth (ending (getLine doc_xx_y_z 0)) = 1
      \<and> getLineEndingWidth (ending (getLine doc_xx_y_z (Suc 0))) = 1
      \<and> getLineEndingWidth (ending (getLine doc_xx_y_z (Suc (Suc 0)))) = 1
      \<and> getLineEndingWidth (ending (getLine doc_w_y_z (Suc 0))) = 1
      \<and> getLineEndingWidth (ending (getLine doc_e_cd (Suc 0))) = 1"
    by (simp add: doc_xx_y_z_def doc_w_y_z_def doc_e_cd_def doc_of_def getLine_def)
  have e0: "analyzeDocumentLine plain_cfg word_grammar doc_xx_y_z 0 0 0
      = \<lparr>highlight = \<lparr>spans = [span_on 0 0 0 2 7 0 0 ''xx'']\<rparr>, end_state = 0, char_count = 2\<rparr>"
    by (simp add: analyzeDocumentLine_def doc_xx_y_z_def span_on_def eval_doc eval_simps eval_inputs
        cong: let_weak_cong)
  have e1: "analyzeDocumentLine plain_cfg word_grammar doc_xx_y_z (Suc 0) 0 3
      = \<lparr>highlight = \<lparr>spans = [span_on 1 3 0 1 7 0 0 ''y'']\<rparr>, end_state = 0, char_count = 1\<rparr>"
    by (simp add: analyzeDocumentLine_def doc_xx_y_z_def span_on_def eval_doc eval_simps eval_inputs
        cong: let_weak_cong)
  have e2: "analyzeDocumentLine plain_cfg word_grammar doc_xx_y_z (Suc (Suc 0)) 0 5
      = \<lparr>highlight = \<lparr>spans = []\<rparr>, end_state = 0, char_count = 0\<rparr>"
    by (simp add: analyzeDocumentLine_def doc_xx_y_z_def span_on_def eval_doc eval_simps eval_inputs
        cong: let_weak_cong)
  have e3: "analyzeDocumentLine plain_cfg word_grammar doc_w_y_z (Suc 0) 0 2
      = \<lparr>highlight = \<lparr>spans = [span_on 1 2 0 1 7 0 0 ''y'']\<rparr>, end_state = 0, char_count = 1\<rparr>"
    by (simp add: analyzeDocumentLine_def doc_w_y_z_def span_on_def eval_doc eval_simps eval_inputs
        cong: let_weak_cong)
  have e4: "analyzeDocumentLine plain_cfg ident_grammar doc_e_cd (Suc 0) 0 (Suc 0)
      = \<lparr>highlight = \<lparr>spans = []\<rparr>, end_state = 0, char_count = 0\<rparr>"
    by (simp add: analyzeDocumentLine_def doc_e_cd_def span_on_def eval_doc eval_simps eval_inputs
        cong: let_weak_cong)
  have 0: "analyzeHighlightIncremental getLineCharCount analyzed_x_y_z (caret 0 1 1) doc_xx_y_z 0
     = finishIncremental getLineCharCount analyzed_x_y_z doc_xx_y_z
         (retokenize_loop plain_cfg word_grammar doc_xx_y_z 0 0 False 0 0 ?S
            (lines (m_highlight analyzed_x_y_z)))"
    using C4_stability_check_and_seed [THEN conjunct2, THEN conjunct2, THEN conjunct2,
        THEN conjunct2, of analyzed_x_y_z word_grammar "caret 0 1 1" 0 ?S
        "lines (m_highlight analyzed_x_y_z)" getLineCharCount doc_xx_y_z]
    by (simp add: analyzed_x_y_z_def resizeVectors_def caret_def position_def
        doc_xx_y_z_def doc_of_def charIndexOfLine_def kDefaultStateId_def)
  have l: "lines (m_highlight analyzed_x_y_z) = ?A0"
    by (simp add: analyzed_x_y_z_def)
  have 1: "retokenize_loop plain_cfg word_grammar doc_xx_y_z 0 0 False 0 0 ?S ?A0
      = retokenize_loop plain_cfg word_grammar doc_xx_y_z 0 1 False 0 3 ?S ?A1"
    using C4_stability_check_and_seed [THEN conjunct1,
        of 0 doc_xx_y_z ?S ?A0 plain_cfg word_grammar 0 0 0]
      e0 g w
    by (simp add: span_on_def position_def eval_nat_numeral)
  have 2: "retokenize_loop plain_cfg word_grammar doc_xx_y_z 0 1 False 0 3 ?S ?A1
      = retokenize_loop plain_cfg word_grammar doc_xx_y_z 0 2 False 0 5 ?S ?A2"
    using C4_stability_check_and_seed [THEN conjunct1,
        of 1 doc_xx_y_z ?S ?A1 plain_cfg word_grammar 0 0 3]
      e1 g w
    by (simp add: span_on_def position_def eval_nat_numeral)
  have "retokenize_loop plain_cfg word_grammar doc_xx_y_z 0 2 False 0 5 ?S ?A2
      = retokenize_loop plain_cfg word_grammar doc_xx_y_z 0 3 True 0 6 ?S ?A2"
    using C4_stability_check_and_seed [THEN conjunct1,
        of 2 doc_xx_y_z ?S ?A2 plain_cfg word_grammar 0 0 5]
      e2 g w
    by (simp add: span_on_def position_def eval_nat_numeral)
  then have 3: "retokenize_loop plain_cfg word_grammar doc_xx_y_z 0 2 False 0 5 ?S ?A2
      = Done (3, 6, ?S, ?A2)"
    using C4_stability_check_and_seed [THEN conjunct2, THEN conjunct2, THEN conjunct1,
        of plain_cfg word_grammar doc_xx_y_z 0 3 0 6 ?S ?A2]
    by simp
  have "retokenize_loop plain_cfg word_grammar doc_w_y_z 0 1 False 0 2 ?S ?D1
      = retokenize_loop plain_cfg word_grammar doc_w_y_z 0 2 True 0 4 ?S ?D1"
    using C4_stability_check_and_seed [THEN conjunct1,
        of 1 doc_w_y_z ?S ?D1 plain_cfg word_grammar 0 0 2]
      e3 g w
    by (simp add: span_on_def position_def eval_nat_numeral)
  then have 4: "retokenize_loop plain_cfg word_grammar doc_w_y_z 0 1 False 0 2 ?S ?D1
      = Done (2, 4, ?S, ?D1)"
    using C4_stability_check_and_seed [THEN conjunct2, THEN conjunct2, THEN conjunct1,
        of plain_cfg word_grammar doc_w_y_z 0 2 0 4 ?S ?D1]
    by simp
  have 5: "retokenize_loop plain_cfg ident_grammar doc_e_cd 0 1 False 0 1 [0, 3, 0] ?B1
      = retokenize_loop plain_cfg ident_grammar doc_e_cd 0 2 False 0 2 [0, 0, 0] ?B1"
    using C4_stability_check_and_seed [THEN conjunct1,
        of 1 doc_e_cd "[0, 3, 0]" ?B1 plain_cfg ident_grammar 0 0 1]
      e4 g w
    by (simp add: span_on_def position_def eval_nat_numeral)
  have 6: "analyzeHighlightIncremental getLineCharCount analyzed_ab_cd (caret 1 0 3) doc_ab_x_cd 0
     = finishIncremental getLineCharCount analyzed_ab_cd doc_ab_x_cd
         (retokenize_loop plain_cfg ident_grammar doc_ab_x_cd 1 1 False 3 3 [3, 3, 0]
            (lines (m_highlight analyzed_ab_cd)))"
    using C4_stability_check_and_seed [THEN conjunct2, THEN conjunct2, THEN conjunct2,
        THEN conjunct2, of analyzed_ab_cd ident_grammar "caret 1 0 3" 0 "[3, 3, 0]"
        "lines (m_highlight analyzed_ab_cd)" getLineCharCount doc_ab_x_cd]
    by (simp add: analyzed_ab_cd_def resizeVectors_def caret_def position_def
        doc_ab_x_cd_def doc_of_def charIndexOfLine_def line_width_def countChars_def
        is_continuation_def eval_nat_numeral)
  have r: "resizeVectors (m_line_syntax_states analyzed_before) (lines (m_highlight analyzed_before))
      0 1 = Done ([0, 0, 0, 0], ?ls)"
    by (simp add: analyzed_before_def resizeVectors_def insert_n_def LineHighlight_empty_def)
  have 7: "?ls ! 3 = lines (m_highlight analyzed_before) ! 2"
    using C4_stability_check_and_seed [THEN conjunct2, THEN conjunct2, THEN conjunct2,
        THEN conjunct1, of "m_line_syntax_states analyzed_before"
        "lines (m_highlight analyzed_before)" 0 1 "[0, 0, 0, 0]" ?ls 3] r
    by simp
  from 0 l 1 2 3 4 5 6 r 7 show ?thesis by simp
qed

text \<open>
  C5. The code does not keep what the claim states for the lines behind the stability
  point. The lines \<open>x\<close>, empty, \<open>y\<close>, \<open>z\<close> are analysed in full with \<open>show_index\<close> set; then
  an \<open>x\<close> is typed at line 0, column 1. The loop is stable at line 1, the fix-up loop sets
  the indices of the lines 2 and 3. Line 3 begins at the character offset 6 of the new
  text, and a full analysis gives its span the indices 6 to 7; the fix-up, which advances
  by the character count of line 2 without its line ending, gives it 5 to 6.
\<close>

theorem C5_fixup_skips_line_ending:
  "map_option span_indices (highlight_of
      (then_incremental getLineCharCount
         (analyzeHighlight (fresh_analyzer doc_xyz word_grammar plain_cfg))
         (caret 0 1 1) doc_xxyz 0))
     = Some [[(0, 2)], [], [(4, 5)], [(5, 6)]]
   \<and> map_option span_indices (highlight_of
         (analyzeHighlight (fresh_analyzer doc_xxyz word_grammar plain_cfg)))
     = Some [[(0, 2)], [], [(4, 5)], [(6, 7)]]
   \<and> charIndexOfLine doc_xxyz 3 = 6
   \<and> show_index plain_cfg
   \<and> \<not> highlight_index_ok doc_xxyz (lines_of
        (then_incremental getLineCharCount
           (analyzeHighlight (fresh_analyzer doc_xyz word_grammar plain_cfg))
           (caret 0 1 1) doc_xxyz 0))
   \<and> highlight_index_ok doc_xxyz (lines_of
        (analyzeHighlight (fresh_analyzer doc_xxyz word_grammar plain_cfg)))
   \<and> highlight_index_ok doc_xxyz (lines_of
        (then_incremental lineCharCount_with_ending
           (analyzeHighlight (fresh_analyzer doc_xyz word_grammar plain_cfg))
           (caret 0 1 1) doc_xxyz 0))"
  by (simp add: eval_doc eval_simps eval_inputs doc_xyz_def doc_xxyz_def lines_of_def
      highlight_index_ok_def line_index_ok_def span_index_ok_def cong: let_weak_cong)

text \<open>
  C7. A line highlight built from the empty one by any sequence of \<^verbatim>\<open>pushOrMergeSpan\<close> calls
  has no two neighbouring spans where the first ends in the column where the second
  starts and both have the same style. When the incoming span would form such a pair with
  the last span, nothing is appended: the last span gets the end column and end index of
  the incoming one and keeps its start, state, goto state and matched text. Otherwise the
  span is appended.
\<close>

theorem C7_merge_closure:
  "merge_closed (spans (foldl pushOrMergeSpan LineHighlight_empty xs))
   \<and> (spans h \<noteq> [] \<and> mergeable (last (spans h)) s \<longrightarrow>
        spans (pushOrMergeSpan h s) = butlast (spans h) @ [extend_end (last (spans h)) s]
        \<and> end_column (last (spans (pushOrMergeSpan h s))) = end_column s
        \<and> end_index (last (spans (pushOrMergeSpan h s))) = end_index s
        \<and> range_start (span_range (last (spans (pushOrMergeSpan h s))))
            = range_start (span_range (last (spans h)))
        \<and> state (last (spans (pushOrMergeSpan h s))) = state (last (spans h))
        \<and> goto_state (last (spans (pushOrMergeSpan h s))) = goto_state (last (spans h))
        \<and> matched_text (last (spans (pushOrMergeSpan h s))) = matched_text (last (spans h)))
   \<and> (spans h = [] \<or> \<not> mergeable (last (spans h)) s \<longrightarrow>
        spans (pushOrMergeSpan h s) = spans h @ [s])"
proof (intro conjI impI)
  show "merge_closed (spans (foldl pushOrMergeSpan LineHighlight_empty xs))"
    by (rule foldl_pushOrMergeSpan_closed) (simp add: LineHighlight_empty_def)
next
  assume a: "spans h \<noteq> [] \<and> mergeable (last (spans h)) s"
  then show m: "spans (pushOrMergeSpan h s) = butlast (spans h) @ [extend_end (last (spans h)) s]"
    by (simp add: pushOrMergeSpan_def mergeable_def)
  show "end_column (last (spans (pushOrMergeSpan h s))) = end_column s"
    by (simp add: m extend_end_keeps)
  show "end_index (last (spans (pushOrMergeSpan h s))) = end_index s"
    by (simp add: m extend_end_keeps)
  show "range_start (span_range (last (spans (pushOrMergeSpan h s))))
            = range_start (span_range (last (spans h)))"
    by (simp add: m extend_end_keeps)
  show "state (last (spans (pushOrMergeSpan h s))) = state (last (spans h))"
    by (simp add: m extend_end_keeps)
  show "goto_state (last (spans (pushOrMergeSpan h s))) = goto_state (last (spans h))"
    by (simp add: m extend_end_keeps)
  show "matched_text (last (spans (pushOrMergeSpan h s))) = matched_text (last (spans h))"
    by (simp add: m extend_end_keeps)
next
  assume "spans h = [] \<or> \<not> mergeable (last (spans h)) s"
  then show "spans (pushOrMergeSpan h s) = spans h @ [s]"
    by (auto simp: pushOrMergeSpan_def mergeable_def)
qed

theorem C7_merge_closure_witness:
  "merge_closed (spans (foldl pushOrMergeSpan LineHighlight_empty
      [span_at 0 0 2 7 0 1 ''ab'', span_at 0 2 5 7 1 (- 1) ''cde'', span_at 0 5 6 3 1 (- 1) ''f'']))
   \<and> spans (foldl pushOrMergeSpan LineHighlight_empty
      [span_at 0 0 2 7 0 1 ''ab'', span_at 0 2 5 7 1 (- 1) ''cde'', span_at 0 5 6 3 1 (- 1) ''f''])
     = [span_at 0 0 5 7 0 1 ''ab'', span_at 0 5 6 3 1 (- 1) ''f'']
   \<and> spans (pushOrMergeSpan \<lparr>spans = [span_at 0 0 2 7 0 1 ''ab'']\<rparr> (span_at 0 2 5 7 1 (- 1) ''cde''))
     = [span_at 0 0 5 7 0 1 ''ab'']
   \<and> spans (pushOrMergeSpan \<lparr>spans = [span_at 0 0 2 7 0 1 ''ab'']\<rparr> (span_at 0 3 5 7 1 (- 1) ''de''))
     = [span_at 0 0 2 7 0 1 ''ab'', span_at 0 3 5 7 1 (- 1) ''de'']"
  using C7_merge_closure [of
      "[span_at 0 0 2 7 0 1 ''ab'', span_at 0 2 5 7 1 (- 1) ''cde'', span_at 0 5 6 3 1 (- 1) ''f'']"
      "\<lparr>spans = [span_at 0 0 2 7 0 1 ''ab'']\<rparr>" "span_at 0 2 5 7 1 (- 1) ''cde''"]
    C7_merge_closure [of "[]" "\<lparr>spans = [span_at 0 0 2 7 0 1 ''ab'']\<rparr>"
      "span_at 0 3 5 7 1 (- 1) ''de''"]
  by (simp add: span_at_def position_def mergeable_def end_column_def start_column_def
      end_index_def extend_end_def pushOrMergeSpan_def LineHighlight_empty_def)

text \<open>
  C8. The scan loop of \<^verbatim>\<open>analyzeLine\<close> terminates: the loop with its iterations recorded
  computes the same result, and it runs at most \<open>countChars t\<close> iterations (so at most
  \<open>countChars t\<close> plus the number of matches). The cursors of the iterations increase
  strictly: an iteration without a match (also in a state the grammar lacks) goes on at
  the next character, an iteration with a match goes on behind the match, which is at
  least one character long, and a region with \<open>end \<le> start\<close> is no match.
\<close>

theorem C8_analyzeLine_progress:
  "fst (analyzeLine_traced cfg rule t info 0 st h) = analyzeLine_loop cfg rule t info 0 st h
   \<and> length (snd (analyzeLine_traced cfg rule t info 0 st h)) \<le> countChars t
   \<and> length (snd (analyzeLine_traced cfg rule t info 0 st h))
        \<le> countChars t + length (filter snd (snd (analyzeLine_traced cfg rule t info 0 st h)))
   \<and> sorted_wrt (<) (map fst (snd (analyzeLine_traced cfg rule t info 0 st h)))
   \<and> (p < countChars t \<and> \<not> matched (matchAtPositionState cfg rule t p s) \<longrightarrow>
         analyzeLine_loop cfg rule t info p s h = analyzeLine_loop cfg rule t info (Suc p) s h)
   \<and> (p < countChars t \<and> matched (matchAtPositionState cfg rule t p s) \<longrightarrow>
         0 < m_length (matchAtPositionState cfg rule t p s)
         \<and> p < m_start (matchAtPositionState cfg rule t p s)
               + m_length (matchAtPositionState cfg rule t p s)
         \<and> analyzeLine_loop cfg rule t info p s h =
             analyzeLine_loop cfg rule t info
               (m_start (matchAtPositionState cfg rule t p s)
                  + m_length (matchAtPositionState cfg rule t p s))
               (if m_goto_state (matchAtPositionState cfg rule t p s) \<ge> 0
                then m_goto_state (matchAtPositionState cfg rule t p s) else s)
               (addLineHighlightResult cfg rule h info s (matchAtPositionState cfg rule t p s)))
   \<and> (onig_search (regex sr) t (charPosToBytePos t p) = Some region
        \<and> region_end region 0 \<le> region_beg region 0 \<longrightarrow>
         \<not> matched (matchAtPosition cfg rule t p sr))
   \<and> (\<not> containsRule rule s \<longrightarrow> \<not> matched (matchAtPositionState cfg rule t p s))"
proof (intro conjI impI)
  show "fst (analyzeLine_traced cfg rule t info 0 st h) = analyzeLine_loop cfg rule t info 0 st h"
    by (rule analyzeLine_traced_result)
  show le: "length (snd (analyzeLine_traced cfg rule t info 0 st h)) \<le> countChars t"
    using analyzeLine_traced_length [of cfg rule t info 0 st h] by simp
  then show "length (snd (analyzeLine_traced cfg rule t info 0 st h))
        \<le> countChars t + length (filter snd (snd (analyzeLine_traced cfg rule t info 0 st h)))"
    by simp
  show "sorted_wrt (<) (map fst (snd (analyzeLine_traced cfg rule t info 0 st h)))"
    by (rule analyzeLine_traced_sorted)
next
  assume "p < countChars t \<and> \<not> matched (matchAtPositionState cfg rule t p s)"
  then show "analyzeLine_loop cfg rule t info p s h = analyzeLine_loop cfg rule t info (Suc p) s h"
    by (subst analyzeLine_loop.simps) simp
next
  assume a: "p < countChars t \<and> matched (matchAtPositionState cfg rule t p s)"
  then have c: "containsRule rule s"
    by (auto simp: matchAtPositionState_def MatchResult_default_def split: if_splits)
  with a show "0 < m_length (matchAtPositionState cfg rule t p s)"
    using searchAtPosition_positive [of t p "getStateRule rule s"]
    by (simp add: matchAtPositionState_def matchAtPosition_fields)
  from a show "p < m_start (matchAtPositionState cfg rule t p s)
               + m_length (matchAtPositionState cfg rule t p s)"
    by (intro matchAtPositionState_progress(1)) simp_all
  from a show "analyzeLine_loop cfg rule t info p s h =
             analyzeLine_loop cfg rule t info
               (m_start (matchAtPositionState cfg rule t p s)
                  + m_length (matchAtPositionState cfg rule t p s))
               (if m_goto_state (matchAtPositionState cfg rule t p s) \<ge> 0
                then m_goto_state (matchAtPositionState cfg rule t p s) else s)
               (addLineHighlightResult cfg rule h info s (matchAtPositionState cfg rule t p s))"
    by (subst analyzeLine_loop.simps) (simp add: Let_def)
next
  assume "onig_search (regex sr) t (charPosToBytePos t p) = Some region
        \<and> region_end region 0 \<le> region_beg region 0"
  then show "\<not> matched (matchAtPosition cfg rule t p sr)"
    using searchAtPosition_zero_width [of sr t p region] by (simp add: matchAtPosition_fields)
next
  assume "\<not> containsRule rule s"
  then show "\<not> matched (matchAtPositionState cfg rule t p s)"
    by (simp add: matchAtPositionState_def MatchResult_default_def)
qed

theorem C8_analyzeLine_progress_witness:
  "snd (analyzeLine_traced plain_cfg digits_grammar ''ab12c'' info0 0 0 LineHighlight_empty)
     = [(0, True), (4, False)]
   \<and> countChars ''ab12c'' = 5
   \<and> matched (matchAtPositionState plain_cfg digits_grammar ''ab12c'' 0 0)
   \<and> m_start (matchAtPositionState plain_cfg digits_grammar ''ab12c'' 0 0) = 2
   \<and> m_length (matchAtPositionState plain_cfg digits_grammar ''ab12c'' 0 0) = 2
   \<and> \<not> matched (matchAtPositionState plain_cfg digits_grammar ''ab12c'' 4 0)
   \<and> analyzeLine_loop plain_cfg digits_grammar ''ab12c'' info0 4 0 LineHighlight_empty
       = analyzeLine_loop plain_cfg digits_grammar ''ab12c'' info0 5 0 LineHighlight_empty
   \<and> onig_search (regex empty_match_state) ''ab'' (charPosToBytePos ''ab'' 1)
       = Some (region_of [(1, 1), (1, 1)])
   \<and> \<not> matched (matchAtPosition plain_cfg digits_grammar ''ab'' 1 empty_match_state)
   \<and> \<not> containsRule digits_grammar 7
   \<and> \<not> matched (matchAtPositionState plain_cfg digits_grammar ''ab12c'' 0 7)"
  using
    C8_analyzeLine_progress [of plain_cfg digits_grammar "''ab12c''" info0 0 LineHighlight_empty
      4 0 empty_match_state "region_of [(1, 1), (1, 1)]"]
    C8_analyzeLine_progress [of plain_cfg digits_grammar "''ab12c''" info0 0 LineHighlight_empty
      0 7 empty_match_state "region_of [(1, 1), (1, 1)]"]
    C8_analyzeLine_progress [of plain_cfg digits_grammar "''ab12c''" info0 0 LineHighlight_empty
      0 0 empty_match_state "region_of [(1, 1), (1, 1)]"]
    C8_analyzeLine_progress [of plain_cfg digits_grammar "''ab''" info0 0 LineHighlight_empty
      1 0 empty_match_state "region_of [(1, 1), (1, 1)]"]
  by (simp add: eval_simps analyzeLine_traced.simps digits_state_def digits_grammar_def
      plain_cfg_def info0_def empty_match_state_def cong: let_weak_cong)



end
